theory Spec2Isabelle
  imports Main "HOL-Library.Sublist" "HOL-Library.Multiset"
begin

section \<open>Python values and containers used by the scheduler\<close>

text \<open>
  The scheduler of \<^verbatim>\<open>backend/app/services/csp_scheduler.py\<close> works on Python
  strings, ints, lists and dicts. Exceptions are values of \<open>py_error\<close>; a computation
  that may raise returns \<open>py_error + 'a\<close>.
\<close>

datatype py_error = IndexError | KeyError | ValueError

text \<open>
  An activity is a Python dict compared by value. Only its \<^verbatim>\<open>"category"\<close> entry is ever
  read (\<^verbatim>\<open>value.get("category")\<close>, which is \<open>None\<close> when the key is absent); all other
  entries are carried in the extension part of the record, so that equality of two
  activities is equality of all their fields.
\<close>

record activity =
  category :: "string option"

record named_activity = activity +
  name :: string

text \<open>
  A dict whose iteration order matters is an association list in insertion order, the
  order Python's \<^verbatim>\<open>dict\<close> iterates in. \<^verbatim>\<open>d[k] = v\<close> overwrites in place when the key is
  present and appends otherwise; \<^verbatim>\<open>del d[k]\<close> raises \<^verbatim>\<open>KeyError\<close> on a missing key.
\<close>

type_synonym ('k, 'v) dict = "('k \<times> 'v) list"

definition dict_keys :: "('k, 'v) dict \<Rightarrow> 'k list" where
  "dict_keys d = map fst d"

definition dict_values :: "('k, 'v) dict \<Rightarrow> 'v list" where
  "dict_values d = map snd d"

definition dict_contains :: "'k \<Rightarrow> ('k, 'v) dict \<Rightarrow> bool" where
  "dict_contains k d = (k \<in> set (dict_keys d))"

definition dict_set :: "('k, 'v) dict \<Rightarrow> 'k \<Rightarrow> 'v \<Rightarrow> ('k, 'v) dict" where
  "dict_set d k v =
     (if dict_contains k d then map (\<lambda>kv. if fst kv = k then (k, v) else kv) d
      else d @ [(k, v)])"

definition dict_del :: "('k, 'v) dict \<Rightarrow> 'k \<Rightarrow> py_error + ('k, 'v) dict" where
  "dict_del d k =
     (if dict_contains k d then Inr (filter (\<lambda>kv. fst kv \<noteq> k) d) else Inl KeyError)"

definition dict_getitem :: "('k, 'v) dict \<Rightarrow> 'k \<Rightarrow> py_error + 'v" where
  "dict_getitem d k = (case map_of d k of None \<Rightarrow> Inl KeyError | Some v \<Rightarrow> Inr v)"

text \<open>\<^verbatim>\<open>d.get(k, default)\<close> on a dict that is only looked up.\<close>

definition dict_get :: "('k \<rightharpoonup> 'v) \<Rightarrow> 'k \<Rightarrow> 'v \<Rightarrow> 'v" where
  "dict_get d k dflt = (case d k of None \<Rightarrow> dflt | Some v \<Rightarrow> v)"

text \<open>\<^verbatim>\<open>xs[i]\<close> for a non-negative literal index.\<close>

definition list_item :: "'a list \<Rightarrow> nat \<Rightarrow> py_error + 'a" where
  "list_item xs i = (if i < length xs then Inr (xs ! i) else Inl IndexError)"

text \<open>\<^verbatim>\<open>range(n)\<close>: empty when \<open>n \<le> 0\<close>.\<close>

definition py_range :: "int \<Rightarrow> int list" where
  "py_range n = [0..n - 1]"

subsection \<open>Strings\<close>

definition digit_chars :: string where
  "digit_chars = ''0123456789''"

definition digit_char :: "nat \<Rightarrow> char" where
  "digit_char n = digit_chars ! n"

fun index_of :: "'a \<Rightarrow> 'a list \<Rightarrow> nat option" where
  "index_of x [] = None"
| "index_of x (y # ys) = (if x = y then Some 0 else map_option Suc (index_of x ys))"

definition digit_of :: "char \<Rightarrow> nat option" where
  "digit_of c = index_of c digit_chars"

text \<open>\<^verbatim>\<open>str(n)\<close>, which is what an f-string field \<^verbatim>\<open>{n}\<close> inserts for an int.\<close>

fun str_nat :: "nat \<Rightarrow> string" where
  "str_nat n = (if n < 10 then [digit_char n] else str_nat (n div 10) @ [digit_char (n mod 10)])"

declare str_nat.simps [simp del]

definition str_int :: "int \<Rightarrow> string" where
  "str_int i = (if i < 0 then CHR ''-'' # str_nat (nat (- i)) else str_nat (nat i))"

text \<open>\<^verbatim>\<open>s.split(sep)\<close> for a one-character separator: never an empty list.\<close>

fun split_str :: "char \<Rightarrow> string \<Rightarrow> string list" where
  "split_str sep [] = [[]]"
| "split_str sep (c # cs) =
     (if c = sep then [] # split_str sep cs
      else (case split_str sep cs of [] \<Rightarrow> [[c]] | w # ws \<Rightarrow> (c # w) # ws))"

text \<open>
  \<^verbatim>\<open>s.replace(old, new)\<close>: all non-overlapping occurrences, left to right; with an empty
  \<open>old\<close> Python inserts \<open>new\<close> before every character and at the end.
\<close>

function replace_str :: "string \<Rightarrow> string \<Rightarrow> string \<Rightarrow> string" where
  "replace_str old new s =
     (if old = [] then new @ concat (map (\<lambda>c. c # new) s)
      else if s = [] then []
      else if prefix old s then new @ replace_str old new (drop (length old) s)
      else hd s # replace_str old new (tl s))"
  by pat_completeness auto
termination
  by (relation "measure (\<lambda>(old, new, s). length s)") auto

declare replace_str.simps [simp del]

text \<open>
  \<^verbatim>\<open>int(s)\<close> on a string: surrounding whitespace is stripped, one sign is allowed, and the
  rest must be a non-empty run of decimal digits, else \<^verbatim>\<open>ValueError\<close>. Whitespace is
  what Python strips among the code points up to 255: space, TAB to CR, the separators
  0x1C to 0x1F, U+0085 and U+00A0 (a \<open>char\<close> is one such code point; Python's further
  whitespace and digits lie beyond them). (Python also accepts single underscores between
  digits; the only caller passes a piece of \<^verbatim>\<open>split("_")\<close>, which has none.)
\<close>

definition is_space :: "char \<Rightarrow> bool" where
  "is_space c = (c \<in> set [CHR '' '', CHR 0x09, CHR 0x0A, CHR 0x0B, CHR 0x0C, CHR 0x0D,
                           CHR 0x1C, CHR 0x1D, CHR 0x1E, CHR 0x1F, CHR 0x85, CHR 0xA0])"

definition strip :: "string \<Rightarrow> string" where
  "strip s = rev (dropWhile is_space (rev (dropWhile is_space s)))"

fun digits_value :: "nat \<Rightarrow> string \<Rightarrow> py_error + nat" where
  "digits_value acc [] = Inr acc"
| "digits_value acc (c # cs) =
     (case digit_of c of None \<Rightarrow> Inl ValueError | Some d \<Rightarrow> digits_value (10 * acc + d) cs)"

definition parse_digits :: "string \<Rightarrow> py_error + nat" where
  "parse_digits s = (if s = [] then Inl ValueError else digits_value 0 s)"

definition int_of_str :: "string \<Rightarrow> py_error + int" where
  "int_of_str s =
     (case strip s of
        [] \<Rightarrow> Inl ValueError
      | c # cs \<Rightarrow>
          if c = CHR ''-'' then (case parse_digits cs of Inl e \<Rightarrow> Inl e | Inr n \<Rightarrow> Inr (- int n))
          else if c = CHR ''+'' then (case parse_digits cs of Inl e \<Rightarrow> Inl e | Inr n \<Rightarrow> Inr (int n))
          else (case parse_digits (c # cs) of Inl e \<Rightarrow> Inl e | Inr n \<Rightarrow> Inr (int n)))"

section \<open>The class \<open>CSP\<close>\<close>

text \<open>
  \<^verbatim>\<open>self.variables\<close>, \<^verbatim>\<open>self.domains\<close> and \<^verbatim>\<open>self.constraints\<close> are set once by
  \<^verbatim>\<open>__init__\<close> and never written again; \<^verbatim>\<open>self.assignment\<close> starts as \<^verbatim>\<open>{}\<close> and is
  the state that \<^verbatim>\<open>backtrack\<close> mutates. The model passes it in and returns it updated.
  A constraint is a callable \<^verbatim>\<open>constraint(assignment, var, value)\<close>.
\<close>

type_synonym 'a assignment = "(string, 'a) dict"

type_synonym 'a constraint = "'a assignment \<Rightarrow> string \<Rightarrow> 'a \<Rightarrow> py_error + bool"

record 'a CSP =
  variables :: "string list"
  domains :: "(string, 'a list) dict"
  constraints :: "'a constraint list"

text \<open>\<^verbatim>\<open>is_consistent\<close>: the first constraint that fails (or raises) decides.\<close>

fun check_constraints :: "'a constraint list \<Rightarrow> 'a assignment \<Rightarrow> string \<Rightarrow> 'a \<Rightarrow> py_error + bool" where
  "check_constraints [] assignment var val = Inr True"
| "check_constraints (constraint # rest) assignment var val =
     (case constraint assignment var val of
        Inl e \<Rightarrow> Inl e
      | Inr ok \<Rightarrow> if \<not> ok then Inr False else check_constraints rest assignment var val)"

definition is_consistent :: "'a CSP \<Rightarrow> 'a assignment \<Rightarrow> string \<Rightarrow> 'a \<Rightarrow> py_error + bool" where
  "is_consistent self assignment var val = check_constraints (constraints self) assignment var val"

text \<open>Truthiness of what \<^verbatim>\<open>backtrack\<close> returns: \<open>None\<close> and the empty dict are false.\<close>

fun truthy :: "'a assignment option \<Rightarrow> bool" where
  "truthy None = False"
| "truthy (Some d) = (d \<noteq> [])"

text \<open>The list comprehension \<^verbatim>\<open>[v for v in self.variables if v not in self.assignment]\<close>.\<close>

definition unassigned :: "'a CSP \<Rightarrow> 'a assignment \<Rightarrow> string list" where
  "unassigned self assignment = filter (\<lambda>v. \<not> dict_contains v assignment) (variables self)"

text \<open>
  \<^verbatim>\<open>backtrack\<close> returns a pair: the returned value (\<open>None\<close> or the assignment dict) and
  the state of \<^verbatim>\<open>self.assignment\<close> when it returns. \<open>try_values\<close> is the \<^verbatim>\<open>for value in
  self.domains[var]\<close> loop over the values still to try. The Python returns the dict
  object itself; nothing writes to it between the \<^verbatim>\<open>return\<close> and its use, so the
  returned value is the dict's content at that moment. The interpreter's recursion limit
  is not part of the model.
\<close>

function backtrack :: "'a CSP \<Rightarrow> 'a assignment \<Rightarrow> py_error + ('a assignment option \<times> 'a assignment)"
  and try_values :: "'a CSP \<Rightarrow> string \<Rightarrow> 'a list \<Rightarrow> 'a assignment \<Rightarrow>
      py_error + ('a assignment option \<times> 'a assignment)" where
  "backtrack self assignment =
     (if length assignment = length (variables self) then Inr (Some assignment, assignment)
      else (case list_item (unassigned self assignment) 0 of
              Inl e \<Rightarrow> Inl e
            | Inr var \<Rightarrow>
                (case dict_getitem (domains self) var of
                   Inl e \<Rightarrow> Inl e
                 | Inr vals \<Rightarrow> try_values self var vals assignment)))"
| "try_values self var [] assignment = Inr (None, assignment)"
| "try_values self var (val # rest) assignment =
     (case is_consistent self assignment var val of
        Inl e \<Rightarrow> Inl e
      | Inr ok \<Rightarrow>
          if ok then
            (case backtrack self (dict_set assignment var val) of
               Inl e \<Rightarrow> Inl e
             | Inr (result, assignment') \<Rightarrow>
                 if truthy result then Inr (result, assignment')
                 else (case dict_del assignment' var of
                         Inl e \<Rightarrow> Inl e
                       | Inr assignment'' \<Rightarrow> try_values self var rest assignment''))
          else try_values self var rest assignment)"
  by pat_completeness auto

text \<open>
  Termination. The loop continues from the state the recursive call left behind, so the
  measure needs a fact about that state: a call never loses a key other than the variable
  it is trying. With it, the number of variables that are neither assigned nor being
  tried never grows along the loop and drops at every descent.
\<close>

lemma dict_keys_overwrite: "map fst (map (\<lambda>kv. if fst kv = k then (k, v) else kv) d) = map fst d"
  by (induction d) auto

lemma dict_keys_dict_set:
  "dict_keys (dict_set d k v) = (if dict_contains k d then dict_keys d else dict_keys d @ [k])"
proof (cases "dict_contains k d")
  case True
  then have "dict_set d k v = map (\<lambda>kv. if fst kv = k then (k, v) else kv) d"
    by (simp add: dict_set_def)
  then show ?thesis using True dict_keys_overwrite[of k v d] by (simp add: dict_keys_def del: map_map)
next
  case False
  then show ?thesis by (simp add: dict_set_def dict_keys_def)
qed

lemma dict_keys_set: "set (dict_keys (dict_set d k v)) = insert k (set (dict_keys d))"
  by (auto simp: dict_keys_dict_set dict_contains_def)

lemma dict_keys_del: "dict_del d k = Inr d' \<Longrightarrow> set (dict_keys d') = set (dict_keys d) - {k}"
  by (auto simp: dict_del_def dict_keys_def dict_contains_def image_iff split: if_splits)

lemma unassigned_hd_fresh:
  "list_item (unassigned self a) 0 = Inr var \<Longrightarrow> var \<in> set (variables self) \<and> var \<notin> set (dict_keys a)"
proof -
  assume h: "list_item (unassigned self a) 0 = Inr var"
  then have "unassigned self a \<noteq> []" "var = hd (unassigned self a)"
    by (auto simp: list_item_def hd_conv_nth split: if_splits)
  then have "var \<in> set (unassigned self a)" by simp
  then show ?thesis by (simp add: unassigned_def dict_contains_def)
qed

lemma backtrack_keys_dom:
  "backtrack_try_values_dom (Inl (self, a)) \<Longrightarrow> backtrack self a = Inr (r, a') \<Longrightarrow>
     set (dict_keys a) \<subseteq> set (dict_keys a')"
  "backtrack_try_values_dom (Inr (self, var, vals, a)) \<Longrightarrow> try_values self var vals a = Inr (r, a') \<Longrightarrow>
     set (dict_keys a) - {var} \<subseteq> set (dict_keys a')"
proof (induct self a and self var vals a arbitrary: r a' and r a' rule: backtrack_try_values.pinduct)
  case (1 self assignment)
  show ?case
  proof (cases "length assignment = length (variables self)")
    case True
    with 1 show ?thesis by (simp add: backtrack.psimps)
  next
    case False
    with 1(1,3) obtain var vals where
      v: "list_item (unassigned self assignment) 0 = Inr var"
      and d: "dict_getitem (domains self) var = Inr vals"
      and t: "try_values self var vals assignment = Inr (r, a')"
      by (auto simp: backtrack.psimps split: sum.splits)
    from 1(2)[OF False v d t] unassigned_hd_fresh[OF v] show ?thesis by auto
  qed
next
  case (2 self var assignment)
  then show ?case by (auto simp: try_values.psimps)
next
  case (3 self var val rest assignment)
  from 3(1,5) obtain ok where ok: "is_consistent self assignment var val = Inr ok"
    by (auto simp: try_values.psimps split: sum.splits)
  show ?case
  proof (cases ok)
    case False
    with 3(1,5) ok have "try_values self var rest assignment = Inr (r, a')"
      by (simp add: try_values.psimps)
    from 3(4)[OF ok _ this] False show ?thesis by simp
  next
    case True
    with 3(1,5) ok obtain r1 a1 where
      b: "backtrack self (dict_set assignment var val) = Inr (r1, a1)"
      by (auto simp: try_values.psimps split: sum.splits)
    from 3(2)[OF ok True b] have sub: "insert var (set (dict_keys assignment)) \<subseteq> set (dict_keys a1)"
      by (simp add: dict_keys_set)
    show ?thesis
    proof (cases "truthy r1")
      case True
      with 3(1,5) ok \<open>ok\<close> b have "a' = a1" by (simp add: try_values.psimps)
      with sub show ?thesis by auto
    next
      case f: False
      with 3(1,5) ok \<open>ok\<close> b obtain a2 where
        del: "dict_del a1 var = Inr a2" and t: "try_values self var rest a2 = Inr (r, a')"
        by (auto simp: try_values.psimps split: sum.splits)
      from 3(3)[OF ok \<open>ok\<close> _ _ f del t] b have "set (dict_keys a2) - {var} \<subseteq> set (dict_keys a')"
        by simp
      with dict_keys_del[OF del] sub show ?thesis by auto
    qed
  qed
qed

lemma length_filter_mono:
  "(\<And>x. x \<in> set xs \<Longrightarrow> P x \<Longrightarrow> Q x) \<Longrightarrow> length (filter P xs) \<le> length (filter Q xs)"
  by (induction xs) auto

lemma length_filter_strict:
  assumes "\<And>x. x \<in> set xs \<Longrightarrow> P x \<Longrightarrow> Q x" and "y \<in> set xs" and "Q y" and "\<not> P y"
  shows "length (filter P xs) < length (filter Q xs)"
proof -
  have "filter P xs = filter P (filter Q xs)"
    using assms(1) by (auto intro: filter_cong)
  moreover have "y \<in> set (filter Q xs)" using assms by simp
  ultimately show ?thesis using length_filter_less[of y "filter Q xs" P] assms(4) by simp
qed

termination backtrack
proof (relation "measures [
    (\<lambda>x. case x of Inl (self, a) \<Rightarrow> length (filter (\<lambda>v. v \<notin> set (dict_keys a)) (variables self))
        | Inr (self, var, vals, a) \<Rightarrow> length (filter (\<lambda>v. v \<notin> insert var (set (dict_keys a))) (variables self))),
    (\<lambda>x. case x of Inl _ \<Rightarrow> 0 | Inr _ \<Rightarrow> 1),
    (\<lambda>x. case x of Inl _ \<Rightarrow> 0 | Inr (self, var, vals, a) \<Rightarrow> length vals)]", goal_cases)
  case 1
  show ?case by simp
next
  case (2 self assignment var vals)
  from unassigned_hd_fresh[OF 2(2)]
  have "length (filter (\<lambda>v. v \<notin> insert var (set (dict_keys assignment))) (variables self))
      < length (filter (\<lambda>v. v \<notin> set (dict_keys assignment)) (variables self))"
    by (intro length_filter_strict[where y = var]) auto
  then show ?case by simp
next
  case (3 self var val rest assignment ok)
  then show ?case by (simp add: dict_keys_set)
next
  case (4 self var val rest assignment ok x2a result a1 a2)
  from 4 have "backtrack self (dict_set assignment var val) = Inr (result, a1)"
    and "backtrack_try_values_dom (Inl (self, dict_set assignment var val))"
    and del: "dict_del a1 var = Inr a2"
    by simp_all
  then have "set (dict_keys (dict_set assignment var val)) \<subseteq> set (dict_keys a1)"
    by (intro backtrack_keys_dom(1))
  with dict_keys_del[OF del] have "set (dict_keys assignment) - {var} \<subseteq> set (dict_keys a2)"
    by (auto simp: dict_keys_set)
  then have "length (filter (\<lambda>v. v \<notin> insert var (set (dict_keys a2))) (variables self))
      \<le> length (filter (\<lambda>v. v \<notin> insert var (set (dict_keys assignment))) (variables self))"
    by (intro length_filter_mono) auto
  then show ?case by (auto intro!: measures_lesseq)
next
  case (5 self var val rest assignment ok)
  then show ?case by simp
qed

declare backtrack.simps [simp del] try_values.simps [simp del]

section \<open>\<open>generate_schedule\<close>\<close>

text \<open>
  Dates enter only through \<^verbatim>\<open>(end_date - start_date).days\<close>, so a date is its day
  number (\<^verbatim>\<open>date.toordinal()\<close>) and the difference of two dates is the difference of
  the numbers. The constraints configuration is a dict from option names to ints.
\<close>

type_synonym date = int

type_synonym config = "string \<rightharpoonup> int"

text \<open>
  The returned dict holds either the message string under \<^verbatim>\<open>"message"\<close> or lists of
  activities under the day labels.
\<close>

datatype 'a py_value = PyStr string | PyList "'a list"

text \<open>The f-string \<^verbatim>\<open>f"Day{d+1}_Slot{slot+1}"\<close>.\<close>

definition var_name :: "int \<Rightarrow> int \<Rightarrow> string" where
  "var_name d slot = ''Day'' @ str_int (d + 1) @ ''_Slot'' @ str_int (slot + 1)"

definition make_variables :: "int \<Rightarrow> int \<Rightarrow> string list" where
  "make_variables num_days max_per_day =
     concat (map (\<lambda>d. map (\<lambda>slot. var_name d slot) (py_range max_per_day)) (py_range num_days))"

definition no_duplicate :: "'a constraint" where
  "no_duplicate assignment var val = Inr (val \<notin> set (dict_values assignment))"

definition food_after_slot :: "config \<Rightarrow> ('b activity_scheme) constraint" where
  "food_after_slot cfg assignment var val =
     (if category val = Some ''food'' then
        (case list_item (split_str CHR ''_'' var) 1 of
           Inl e \<Rightarrow> Inl e
         | Inr piece \<Rightarrow>
             (case int_of_str (replace_str ''Slot'' [] piece) of
                Inl e \<Rightarrow> Inl e
              | Inr slot_no \<Rightarrow> Inr (slot_no \<ge> dict_get cfg ''food_after_slot'' 1)))
      else Inr True)"

text \<open>The formatting loop over \<^verbatim>\<open>result.items()\<close>, with \<^verbatim>\<open>final\<close> as its state.\<close>

fun format_days :: "(string \<times> 'a) list \<Rightarrow> (string, 'a list) dict \<Rightarrow> py_error + (string, 'a list) dict" where
  "format_days [] final = Inr final"
| "format_days ((var, activity) # items) final =
     (case list_item (split_str CHR ''_'' var) 0 of
        Inl e \<Rightarrow> Inl e
      | Inr day_key \<Rightarrow>
          (let final1 = (if \<not> dict_contains day_key final then dict_set final day_key [] else final)
           in case dict_getitem final1 day_key of
                Inl e \<Rightarrow> Inl e
              | Inr acts \<Rightarrow> format_days items (dict_set final1 day_key (acts @ [activity]))))"

definition no_solution_message :: "(string, 'a py_value) dict" where
  "no_solution_message = [(''message'', PyStr ''No valid schedule found for given constraints'')]"

text \<open>
  The first part of \<^verbatim>\<open>generate_schedule\<close>, up to \<^verbatim>\<open>csp = CSP(variables, domains,
  constraints_list)\<close>. Every variable's domain is the whole activity list.
\<close>

definition make_csp :: "'b activity_scheme list \<Rightarrow> date \<Rightarrow> date \<Rightarrow> config \<Rightarrow> 'b activity_scheme CSP" where
  "make_csp activities start_date end_date cfg =
     (let num_days = (end_date - start_date) + 1;
          max_per_day = dict_get cfg ''max_per_day'' 3;
          vars = make_variables num_days max_per_day;
          doms = map (\<lambda>var. (var, activities)) vars;
          constraints_list = [no_duplicate, food_after_slot cfg]
      in \<lparr>variables = vars, domains = doms, constraints = constraints_list\<rparr>)"

text \<open>
  The rest of it. \<^verbatim>\<open>if not result\<close> is taken by \<open>None\<close> and by the empty dict alike;
  past it, \<open>result\<close> is a non-empty dict.
\<close>

definition generate_schedule ::
  "'b activity_scheme list \<Rightarrow> date \<Rightarrow> date \<Rightarrow> config \<Rightarrow>
     py_error + (string, 'b activity_scheme py_value) dict" where
  "generate_schedule activities start_date end_date cfg =
     (let csp = make_csp activities start_date end_date cfg
      in case backtrack csp [] of
           Inl e \<Rightarrow> Inl e
         | Inr (result, assignment) \<Rightarrow>
             if \<not> truthy result then Inr no_solution_message
             else (case result of
                     None \<Rightarrow> Inr no_solution_message
                   | Some items \<Rightarrow>
                       (case format_days items [] of
                          Inl e \<Rightarrow> Inl e
                        | Inr final \<Rightarrow> Inr (map (\<lambda>(day_key, acts). (day_key, PyList acts)) final))))"

section \<open>Reference notions for the properties\<close>

text \<open>
  The definitions of this section are not part of the program. They say what the
  properties below talk about: the day label \<^verbatim>\<open>"Day<d>"\<close>, the candidate assignments in
  the order the search visits them, and the day-grouped, slot-ordered schedule of an
  assignment.
\<close>

definition day_label :: "nat \<Rightarrow> string" where
  "day_label d = ''Day'' @ str_nat d"

text \<open>
  All assignments of values to the variables \<open>vs\<close>, as association lists in variable
  order, enumerated with the first variable's value changing slowest and every value
  taken in the order of \<open>vals\<close>: there are \<open>|vals| ^ |vs|\<close> of them.
\<close>

fun candidates :: "string list \<Rightarrow> 'a list \<Rightarrow> 'a assignment list" where
  "candidates [] vals = [[]]"
| "candidates (v # vs) vals = concat (map (\<lambda>x. map (\<lambda>rest. (v, x) # rest) (candidates vs vals)) vals)"

text \<open>
  An extension \<open>c\<close> of the assignment \<open>a\<close> is admissible when each of its entries passes
  every constraint against the entries before it.
\<close>

fun admissible :: "'a constraint list \<Rightarrow> 'a assignment \<Rightarrow> 'a assignment \<Rightarrow> bool" where
  "admissible cs a [] = True"
| "admissible cs a ((v, x) # rest) =
     (check_constraints cs a v x = Inr True \<and> admissible cs (a @ [(v, x)]) rest)"

text \<open>
  What a call of \<^verbatim>\<open>backtrack\<close> entered with the assignment \<open>a\<close> is expected to return
  (value and final state) when \<open>r\<close> is the first admissible extension, if any.
\<close>

definition found :: "'a assignment \<Rightarrow> 'a assignment option \<Rightarrow> 'a assignment option \<times> 'a assignment" where
  "found a r = (case r of None \<Rightarrow> (None, a) | Some c \<Rightarrow> (Some (a @ c), a @ c))"

text \<open>
  The first solution under the day-major, slot-minor variable order and the supplied
  order of the activities.
\<close>

definition first_solution ::
  "'b activity_scheme list \<Rightarrow> date \<Rightarrow> date \<Rightarrow> config \<Rightarrow> 'b activity_scheme assignment option" where
  "first_solution activities start_date end_date cfg =
     find (admissible [no_duplicate, food_after_slot cfg] [])
       (candidates (make_variables (end_date - start_date + 1) (dict_get cfg ''max_per_day'' 3)) activities)"

text \<open>
  The schedule of an assignment \<open>c\<close> for \<open>n\<close> days of \<open>m\<close> slots: one entry per day, in
  day order, holding the activities of that day's slots by ascending slot index. It
  looks every slot up by its key, so it does not depend on the order of \<open>c\<close>.
\<close>

definition schedule_of :: "nat \<Rightarrow> nat \<Rightarrow> 'a assignment \<Rightarrow> (string, 'a py_value) dict" where
  "schedule_of n m c =
     map (\<lambda>d. (day_label (Suc d),
                PyList (List.map_filter (\<lambda>s. map_of c (var_name (int d) (int s))) [0..<m])))
       [0..<n]"

text \<open>All activities of a returned dict, day after day (none for the message).\<close>

definition scheduled_activities :: "(string, 'a py_value) dict \<Rightarrow> 'a list" where
  "scheduled_activities out =
     concat (map (\<lambda>(day_key, v). case v of PyList acts \<Rightarrow> acts | PyStr msg \<Rightarrow> []) out)"

text \<open>The activities of the example scenario: two sights and a meal.\<close>

definition museum :: named_activity where
  "museum = \<lparr>category = Some ''sight'', name = ''Museum''\<rparr>"

definition lunch :: named_activity where
  "lunch = \<lparr>category = Some ''food'', name = ''Lunch''\<rparr>"

definition park :: named_activity where
  "park = \<lparr>category = Some ''sight'', name = ''Park''\<rparr>"

section \<open>Calls that generate no slot variable\<close>

lemma backtrack_no_variables: "variables self = [] \<Longrightarrow> backtrack self [] = Inr (Some [], [])"
  by (simp add: backtrack.simps)

lemma py_range_empty: "n \<le> 0 \<Longrightarrow> py_range n = []"
  by (simp add: py_range_def)

lemma make_variables_empty:
  "num_days \<le> 0 \<or> max_per_day \<le> 0 \<Longrightarrow> make_variables num_days max_per_day = []"
  by (auto simp: make_variables_def py_range_empty)

lemma generate_schedule_no_variables:
  "make_variables (end_date - start_date + 1) (dict_get cfg ''max_per_day'' 3) = [] \<Longrightarrow>
     generate_schedule activities start_date end_date cfg = Inr no_solution_message"
  by (simp add: generate_schedule_def make_csp_def Let_def backtrack_no_variables)

section \<open>Strings: the names of the generated variables\<close>

lemma below_ten: "k < 10 \<Longrightarrow> k \<in> {0, 1, 2, 3, 4, 5, 6, 7, 8, 9::nat}"
  by auto

lemma digit_of_digit_char: "k < 10 \<Longrightarrow> digit_of (digit_char k) = Some k"
  by (drule below_ten) (auto simp: digit_of_def digit_char_def digit_chars_def)

lemma digit_char_in_digits: "k < 10 \<Longrightarrow> digit_char k \<in> set digit_chars"
  by (drule below_ten) (auto simp: digit_char_def digit_chars_def)

lemma str_nat_digits: "set (str_nat n) \<subseteq> set digit_chars"
proof (induction n rule: str_nat.induct)
  case (1 n)
  show ?case
  proof (cases "n < 10")
    case True
    then show ?thesis by (subst str_nat.simps) (simp add: digit_char_in_digits)
  next
    case False
    with 1 show ?thesis by (subst str_nat.simps) (simp add: digit_char_in_digits)
  qed
qed

lemma str_nat_nonempty: "str_nat n \<noteq> []"
  by (subst str_nat.simps) simp

lemma digits_value_append:
  "digits_value acc (xs @ ys) =
     (case digits_value acc xs of Inl e \<Rightarrow> Inl e | Inr v \<Rightarrow> digits_value v ys)"
  by (induction xs arbitrary: acc) (auto split: option.splits)

lemma digits_value_str_nat: "digits_value 0 (str_nat n) = Inr n"
proof (induction n rule: str_nat.induct)
  case (1 n)
  show ?case
  proof (cases "n < 10")
    case True
    then show ?thesis by (subst str_nat.simps) (simp add: digit_of_digit_char)
  next
    case False
    with 1 show ?thesis
      by (subst str_nat.simps) (simp add: digits_value_append digit_of_digit_char)
  qed
qed

lemma strip_no_space: "\<forall>c \<in> set s. \<not> is_space c \<Longrightarrow> strip s = s"
proof (cases "s = []")
  case True
  then show ?thesis by (simp add: strip_def)
next
  case False
  assume h: "\<forall>c \<in> set s. \<not> is_space c"
  with False have "\<not> is_space (hd s)" "\<not> is_space (hd (rev s))"
    by (auto simp: hd_rev)
  then have "dropWhile is_space s = s" "dropWhile is_space (rev s) = rev s"
    by (simp_all add: dropWhile_eq_self_iff)
  then show ?thesis by (simp add: strip_def)
qed

lemma digit_not_space: "c \<in> set digit_chars \<Longrightarrow> \<not> is_space c"
  by (auto simp: digit_chars_def is_space_def)

lemma int_of_str_str_nat: "int_of_str (str_nat n) = Inr (int n)"
proof -
  have st: "strip (str_nat n) = str_nat n"
    using str_nat_digits[of n] by (intro strip_no_space) (auto dest: digit_not_space)
  obtain c cs where s: "str_nat n = c # cs"
    using str_nat_nonempty[of n] by (cases "str_nat n") auto
  then have "c \<in> set digit_chars" using str_nat_digits[of n] by auto
  then have c: "c \<noteq> CHR ''-''" "c \<noteq> CHR ''+''" by (auto simp: digit_chars_def)
  have "parse_digits (str_nat n) = Inr n"
    by (simp add: parse_digits_def str_nat_nonempty digits_value_str_nat)
  then have p: "parse_digits (c # cs) = Inr n" unfolding s .
  show ?thesis unfolding int_of_str_def st unfolding s using c p by simp
qed

lemma str_nat_inject:
  assumes "str_nat m = str_nat n"
  shows "m = n"
proof -
  have "(Inr (int m) :: py_error + int) = int_of_str (str_nat m)"
    by (simp only: int_of_str_str_nat)
  also have "\<dots> = int_of_str (str_nat n)" by (simp only: assms)
  also have "\<dots> = Inr (int n)" by (rule int_of_str_str_nat)
  finally show ?thesis by simp
qed

lemma split_str_nonempty: "split_str sep s \<noteq> []"
  by (induction s) (auto split: list.splits)

lemma split_str_no_sep: "sep \<notin> set xs \<Longrightarrow> split_str sep xs = [xs]"
  by (induction xs) auto

lemma split_str_at_sep: "sep \<notin> set xs \<Longrightarrow> split_str sep (xs @ sep # ys) = xs # split_str sep ys"
  by (induction xs) auto

lemma replace_str_absent: "old \<noteq> [] \<Longrightarrow> hd old \<notin> set s \<Longrightarrow> replace_str old new s = s"
proof (induction s)
  case Nil
  then show ?case by (subst replace_str.simps) simp
next
  case (Cons c cs)
  then have "\<not> prefix old (c # cs)" by (cases old) auto
  with Cons show ?case by (subst replace_str.simps) simp
qed

lemma replace_Slot: "CHR ''S'' \<notin> set ds \<Longrightarrow> replace_str ''Slot'' [] (''Slot'' @ ds) = ds"
  by (subst replace_str.simps) (simp add: replace_str_absent)

lemma var_name_nat: "var_name (int d) (int s) = day_label (Suc d) @ ''_Slot'' @ str_nat (Suc s)"
  by (simp add: var_name_def str_int_def day_label_def nat_add_distrib)

lemma digits_plain: "c \<in> set (str_nat n) \<Longrightarrow> c \<noteq> CHR ''_'' \<and> c \<noteq> CHR ''S''"
  using str_nat_digits[of n] by (auto simp: digit_chars_def)

lemma split_var_name:
  "split_str CHR ''_'' (var_name (int d) (int s)) = [day_label (Suc d), ''Slot'' @ str_nat (Suc s)]"
proof -
  have a: "CHR ''_'' \<notin> set (day_label (Suc d))" and b: "CHR ''_'' \<notin> set (''Slot'' @ str_nat (Suc s))"
    using digits_plain by (auto simp: day_label_def)
  have "var_name (int d) (int s) = day_label (Suc d) @ CHR ''_'' # (''Slot'' @ str_nat (Suc s))"
    by (simp add: var_name_nat)
  then have "split_str CHR ''_'' (var_name (int d) (int s))
      = day_label (Suc d) # split_str CHR ''_'' (''Slot'' @ str_nat (Suc s))"
    using split_str_at_sep[OF a] by (simp only:)
  also have "split_str CHR ''_'' (''Slot'' @ str_nat (Suc s)) = [''Slot'' @ str_nat (Suc s)]"
    by (rule split_str_no_sep[OF b])
  finally show ?thesis .
qed

lemma var_name_day: "list_item (split_str CHR ''_'' (var_name (int d) (int s))) 0 = Inr (day_label (Suc d))"
  by (simp add: split_var_name list_item_def)

lemma var_name_piece:
  "list_item (split_str CHR ''_'' (var_name (int d) (int s))) 1 = Inr (''Slot'' @ str_nat (Suc s))"
  unfolding split_var_name by (simp add: list_item_def)

lemma slot_piece_number: "int_of_str (replace_str ''Slot'' [] (''Slot'' @ str_nat (Suc s))) = Inr (int (Suc s))"
proof -
  have "CHR ''S'' \<notin> set (str_nat (Suc s))" using digits_plain by blast
  then have "replace_str ''Slot'' [] (''Slot'' @ str_nat (Suc s)) = str_nat (Suc s)"
    by (rule replace_Slot)
  then show ?thesis by (simp only: int_of_str_str_nat)
qed

lemma day_label_inject: "day_label d = day_label d' \<Longrightarrow> d = d'"
  by (simp add: day_label_def str_nat_inject)

lemma var_name_inject:
  assumes "var_name (int d) (int s) = var_name (int d') (int s')"
  shows "d = d' \<and> s = s'"
proof -
  from assms have "split_str CHR ''_'' (var_name (int d) (int s)) = split_str CHR ''_'' (var_name (int d') (int s'))"
    by simp
  then have "day_label (Suc d) = day_label (Suc d')" and "str_nat (Suc s) = str_nat (Suc s')"
    unfolding split_var_name by simp_all
  then show ?thesis by (auto dest: day_label_inject str_nat_inject)
qed

lemma upto_nat: "[0..int k - 1] = map int [0..<k]"
proof (induction k)
  case 0
  then show ?case by simp
next
  case (Suc k)
  have "[0..int (Suc k) - 1] = [0..int k - 1] @ [int k]"
    using upto_rec2[of 0 "int k"] by simp
  with Suc show ?case by simp
qed

lemma py_range_nat: "py_range n = map int [0..<nat n]"
proof (cases "n \<le> 0")
  case True
  then show ?thesis by (simp add: py_range_def)
next
  case False
  then show ?thesis using upto_nat[of "nat n"] by (simp add: py_range_def)
qed

lemma make_variables_nat:
  "make_variables n m = concat (map (\<lambda>d. map (\<lambda>s. var_name (int d) (int s)) [0..<nat m]) [0..<nat n])"
  by (simp add: make_variables_def py_range_nat comp_def)

lemma distinct_make_variables: "distinct (make_variables n m)"
proof (cases "nat m = 0")
  case True
  then have "make_variables n m = []" by (simp add: make_variables_nat)
  then show ?thesis by simp
next
  case False
  have inj: "inj_on (\<lambda>d. map (\<lambda>s. var_name (int d) (int s)) [0..<nat m]) (set [0..<nat n])"
  proof (rule inj_onI)
    fix d d'
    assume "map (\<lambda>s. var_name (int d) (int s)) [0..<nat m] = map (\<lambda>s. var_name (int d') (int s)) [0..<nat m]"
    then have "\<forall>s \<in> set [0..<nat m]. var_name (int d) (int s) = var_name (int d') (int s)"
      by (simp only: map_eq_conv)
    moreover from False have "0 \<in> set [0..<nat m]" by simp
    ultimately have "var_name (int d) (int 0) = var_name (int d') (int 0)" by blast
    then show "d = d'" using var_name_inject by blast
  qed
  show ?thesis
    unfolding make_variables_nat
  proof (rule distinct_concat, goal_cases)
    case 1
    show ?case using inj by (simp add: distinct_map)
  next
    case (2 ys)
    then show ?case by (auto simp: distinct_map inj_on_def dest: var_name_inject)
  next
    case (3 ys zs)
    then show ?case by (auto dest: var_name_inject)
  qed
qed

section \<open>The search returns the first admissible candidate\<close>

lemma find_append: "find P (xs @ ys) = (case find P xs of None \<Rightarrow> find P ys | Some x \<Rightarrow> Some x)"
  by (induction xs) auto

lemma find_map: "find P (map f xs) = map_option f (find (\<lambda>x. P (f x)) xs)"
  by (induction xs) auto

lemma find_never: "(\<And>x. x \<in> set xs \<Longrightarrow> \<not> P x) \<Longrightarrow> find P xs = None"
  by (induction xs) auto

lemma dict_set_fresh: "k \<notin> set (dict_keys d) \<Longrightarrow> dict_set d k v = d @ [(k, v)]"
  by (simp add: dict_set_def dict_contains_def)

lemma dict_del_last: "k \<notin> set (dict_keys d) \<Longrightarrow> dict_del (d @ [(k, v)]) k = Inr d"
proof -
  assume "k \<notin> set (dict_keys d)"
  then have "filter (\<lambda>kv. fst kv \<noteq> k) d = d"
    by (auto simp: dict_keys_def intro!: filter_True)
  then show ?thesis by (simp add: dict_del_def dict_contains_def dict_keys_def)
qed

lemma unassigned_next:
  assumes "distinct (done @ var # todo)" and "variables self = done @ var # todo" and "dict_keys a = done"
  shows "list_item (unassigned self a) 0 = Inr var"
proof -
  have "filter (\<lambda>v. v \<notin> set done) done = []" by (simp add: filter_empty_conv)
  moreover have "filter (\<lambda>v. v \<notin> set done) (var # todo) = var # todo"
    using assms(1) by (intro filter_True) auto
  ultimately have "unassigned self a = var # todo"
    using assms(2,3) by (simp add: unassigned_def dict_contains_def)
  then show ?thesis by (simp add: list_item_def)
qed

lemma try_values_first:
  assumes fresh: "var \<notin> set (dict_keys a)"
    and ok: "\<And>x. \<exists>b. check_constraints (constraints self) a var x = Inr b"
    and rec: "\<And>x. backtrack self (a @ [(var, x)])
        = Inr (found (a @ [(var, x)]) (find (admissible (constraints self) (a @ [(var, x)])) (candidates todo vals)))"
  shows "try_values self var xs a
    = Inr (found a (find (admissible (constraints self) a)
          (concat (map (\<lambda>x. map (\<lambda>rest. (var, x) # rest) (candidates todo vals)) xs))))"
proof (induction xs)
  case Nil
  show ?case by (simp add: try_values.simps found_def)
next
  case (Cons x xs)
  from ok obtain b where b: "check_constraints (constraints self) a var x = Inr b" by blast
  show ?case
  proof (cases b)
    case False
    with b have "find (admissible (constraints self) a) (map (\<lambda>rest. (var, x) # rest) (candidates todo vals)) = None"
      by (intro find_never) auto
    with False b Cons show ?thesis
      by (simp add: try_values.simps is_consistent_def find_append)
  next
    case True
    let ?a' = "a @ [(var, x)]"
    have fm: "find (admissible (constraints self) a) (map (\<lambda>rest. (var, x) # rest) (candidates todo vals))
        = map_option (\<lambda>rest. (var, x) # rest) (find (admissible (constraints self) ?a') (candidates todo vals))"
      using True b by (simp add: find_map)
    show ?thesis
    proof (cases "find (admissible (constraints self) ?a') (candidates todo vals)")
      case None
      with True b Cons fm rec[of x] fresh show ?thesis
        by (simp add: try_values.simps is_consistent_def find_append
            dict_set_fresh dict_del_last found_def)
    next
      case (Some c)
      with True b fm rec[of x] fresh show ?thesis
        by (simp add: try_values.simps is_consistent_def find_append
            dict_set_fresh found_def)
    qed
  qed
qed

lemma backtrack_first:
  assumes "distinct (done @ todo)" and "variables self = done @ todo" and "dict_keys a = done"
    and "\<And>v. v \<in> set todo \<Longrightarrow> dict_getitem (domains self) v = Inr vals"
    and "\<And>a v x. v \<in> set todo \<Longrightarrow> \<exists>b. check_constraints (constraints self) a v x = Inr b"
  shows "backtrack self a = Inr (found a (find (admissible (constraints self) a) (candidates todo vals)))"
  using assms
proof (induction todo arbitrary: "done" a)
  case Nil
  then have "length a = length (variables self)" by (simp add: dict_keys_def flip: length_map[of fst a])
  then show ?case by (simp add: backtrack.simps found_def)
next
  case (Cons var todo)
  from Cons.prems(2,3) have "length a \<noteq> length (variables self)"
    by (simp add: dict_keys_def flip: length_map[of fst a])
  moreover note unassigned_next[OF Cons.prems(1,2,3)]
  moreover have "dict_getitem (domains self) var = Inr vals" using Cons.prems(4) by simp
  ultimately have bt: "backtrack self a = try_values self var vals a"
    by (simp add: backtrack.simps[of self a])
  have fresh: "var \<notin> set (dict_keys a)" using Cons.prems(1,3) by simp
  have rec: "backtrack self (a @ [(var, x)])
        = Inr (found (a @ [(var, x)]) (find (admissible (constraints self) (a @ [(var, x)])) (candidates todo vals)))" for x
  proof (rule Cons.IH[where ?done = "done @ [var]"])
    show "distinct ((done @ [var]) @ todo)" using Cons.prems(1) by simp
    show "variables self = (done @ [var]) @ todo" using Cons.prems(2) by simp
    show "dict_keys (a @ [(var, x)]) = done @ [var]" using Cons.prems(3) by (simp add: dict_keys_def)
    show "\<And>v. v \<in> set todo \<Longrightarrow> dict_getitem (domains self) v = Inr vals" using Cons.prems(4) by simp
    show "\<And>a v x. v \<in> set todo \<Longrightarrow> \<exists>b. check_constraints (constraints self) a v x = Inr b"
      using Cons.prems(5) by simp
  qed
  have "try_values self var vals a
    = Inr (found a (find (admissible (constraints self) a)
          (concat (map (\<lambda>x. map (\<lambda>rest. (var, x) # rest) (candidates todo vals)) vals))))"
    by (rule try_values_first[OF fresh _ rec]) (use Cons.prems(5) in simp)
  with bt show ?case by simp
qed

lemma length_candidates: "length (candidates vs vals) = length vals ^ length vs"
proof (induction vs)
  case Nil
  show ?case by simp
next
  case (Cons v vs)
  have "length (concat (map (\<lambda>x. map (\<lambda>rest. (v, x) # rest) (candidates vs vals)) xs))
      = length xs * length (candidates vs vals)" for xs
    by (induction xs) simp_all
  with Cons show ?case by simp
qed

lemma candidates_keys: "c \<in> set (candidates vs vals) \<Longrightarrow> map fst c = vs \<and> set (map snd c) \<subseteq> set vals"
proof (induction vs arbitrary: c)
  case Nil
  then show ?case by simp
next
  case (Cons v vs)
  then obtain x r where "x \<in> set vals" "r \<in> set (candidates vs vals)" "c = (v, x) # r"
    by auto
  with Cons.IH[of r] show ?case by simp
qed

section \<open>The formatting loop\<close>

lemma dict_getitem_last: "k \<notin> set (dict_keys F) \<Longrightarrow> dict_getitem (F @ [(k, v)]) k = Inr v"
proof -
  assume "k \<notin> set (dict_keys F)"
  then have "map_of F k = None" by (simp add: map_of_eq_None_iff dict_keys_def)
  then show ?thesis by (simp add: dict_getitem_def map_add_def)
qed

lemma dict_set_last: "k \<notin> set (dict_keys F) \<Longrightarrow> dict_set (F @ [(k, v)]) k w = F @ [(k, w)]"
proof -
  assume "k \<notin> set (dict_keys F)"
  then have "map (\<lambda>kv. if fst kv = k then (k, w) else kv) F = F"
    by (intro map_idI) (force simp: dict_keys_def)
  then show ?thesis by (simp add: dict_set_def dict_contains_def dict_keys_def)
qed

lemma format_days_same_day:
  assumes "\<And>v x. (v, x) \<in> set blk \<Longrightarrow> list_item (split_str CHR ''_'' v) 0 = Inr k"
    and "k \<notin> set (dict_keys F)"
  shows "format_days (blk @ rest) (F @ [(k, acc)]) = format_days rest (F @ [(k, acc @ map snd blk)])"
  using assms(1)
proof (induction blk arbitrary: acc)
  case Nil
  show ?case by simp
next
  case (Cons p blk)
  obtain v x where p: "p = (v, x)" by (cases p)
  have "list_item (split_str CHR ''_'' v) 0 = Inr k" by (rule Cons.prems[of v x]) (simp add: p)
  moreover have "dict_contains k (F @ [(k, acc)])" by (simp add: dict_contains_def dict_keys_def)
  ultimately have "format_days ((p # blk) @ rest) (F @ [(k, acc)])
      = format_days (blk @ rest) (F @ [(k, acc @ [x])])"
    using assms(2) by (simp add: p dict_getitem_last dict_set_last)
  also have "\<dots> = format_days rest (F @ [(k, (acc @ [x]) @ map snd blk)])"
  proof (rule Cons.IH)
    fix v' x'
    assume "(v', x') \<in> set blk"
    then show "list_item (split_str CHR ''_'' v') 0 = Inr k" using Cons.prems[of v' x'] by simp
  qed
  finally show ?case by (simp add: p)
qed

lemma format_days_new_day:
  assumes same: "\<And>v x. (v, x) \<in> set blk \<Longrightarrow> list_item (split_str CHR ''_'' v) 0 = Inr k"
    and fresh: "k \<notin> set (dict_keys F)" and "blk \<noteq> []"
  shows "format_days (blk @ rest) F = format_days rest (F @ [(k, map snd blk)])"
proof -
  from \<open>blk \<noteq> []\<close> obtain v x blk' where blk: "blk = (v, x) # blk'"
    by (cases blk) auto
  have "list_item (split_str CHR ''_'' v) 0 = Inr k" by (rule same[of v x]) (simp add: blk)
  moreover have "\<not> dict_contains k F" using fresh by (simp add: dict_contains_def)
  ultimately have "format_days (blk @ rest) F = format_days (blk' @ rest) (F @ [(k, [x])])"
    using fresh by (simp add: blk dict_set_fresh dict_getitem_last dict_set_last)
  also have "\<dots> = format_days rest (F @ [(k, [x] @ map snd blk')])"
  proof (rule format_days_same_day[OF _ fresh])
    fix v' x'
    assume "(v', x') \<in> set blk'"
    then show "list_item (split_str CHR ''_'' v') 0 = Inr k" using same[of v' x'] blk by simp
  qed
  finally show ?thesis by (simp add: blk)
qed

lemma format_days_blocks:
  assumes "\<And>d v x. d \<in> set ds \<Longrightarrow> (v, x) \<in> set (blk d) \<Longrightarrow> list_item (split_str CHR ''_'' v) 0 = Inr (key d)"
    and "distinct (map key ds)" and "set (map key ds) \<inter> set (dict_keys F) = {}"
    and "\<And>d. d \<in> set ds \<Longrightarrow> blk d \<noteq> []"
  shows "format_days (concat (map blk ds)) F = Inr (F @ map (\<lambda>d. (key d, map snd (blk d))) ds)"
  using assms
proof (induction ds arbitrary: F)
  case Nil
  show ?case by simp
next
  case (Cons d ds)
  have "format_days (concat (map blk (d # ds))) F = format_days (concat (map blk ds)) (F @ [(key d, map snd (blk d))])"
    using Cons.prems by (simp add: format_days_new_day[where k = "key d"])
  also have "\<dots> = Inr ((F @ [(key d, map snd (blk d))]) @ map (\<lambda>d. (key d, map snd (blk d))) ds)"
  proof (rule Cons.IH)
    show "set (map key ds) \<inter> set (dict_keys (F @ [(key d, map snd (blk d))])) = {}"
      using Cons.prems(2,3) by (auto simp: dict_keys_def)
  qed (use Cons.prems in auto)
  finally show ?case by simp
qed

lemma assoc_list_rebuild: "distinct (map fst c) \<Longrightarrow> map (\<lambda>v. (v, the (map_of c v))) (map fst c) = c"
proof (induction c)
  case Nil
  show ?case by simp
next
  case (Cons p c)
  have "the (map_of (p # c) v) = the (map_of c v)" if "v \<in> set (map fst c)" for v
  proof -
    from that Cons.prems have "v \<noteq> fst p" by force
    then show ?thesis by (cases p) simp
  qed
  then have "map (\<lambda>v. (v, the (map_of (p # c) v))) (map fst c) = map (\<lambda>v. (v, the (map_of c v))) (map fst c)"
    by (intro map_cong) simp_all
  with Cons show ?case by (cases p) simp
qed

lemma map_filter_total: "\<forall>x \<in> set xs. f x \<noteq> None \<Longrightarrow> List.map_filter f xs = map (\<lambda>x. the (f x)) xs"
  by (induction xs) (auto simp: List.map_filter_simps)

lemma format_days_schedule:
  assumes keys: "map fst c = make_variables n m" and m: "0 < m"
  shows "format_days c [] = Inr (map (\<lambda>d. (day_label (Suc d),
      List.map_filter (\<lambda>s. map_of c (var_name (int d) (int s))) [0..<nat m])) [0..<nat n])"
proof -
  let ?blk = "\<lambda>d. map (\<lambda>s. (var_name (int d) (int s), the (map_of c (var_name (int d) (int s))))) [0..<nat m]"
  have "distinct (map fst c)" using keys distinct_make_variables by simp
  then have "c = map (\<lambda>v. (v, the (map_of c v))) (make_variables n m)"
    using assoc_list_rebuild[of c] keys by simp
  also have "\<dots> = concat (map ?blk [0..<nat n])"
    by (simp add: make_variables_nat map_concat comp_def)
  finally have c: "c = concat (map ?blk [0..<nat n])" .
  have "format_days (concat (map ?blk [0..<nat n])) []
      = Inr ([] @ map (\<lambda>d. (day_label (Suc d), map snd (?blk d))) [0..<nat n])"
  proof (rule format_days_blocks)
    show "distinct (map (\<lambda>d. day_label (Suc d)) [0..<nat n])"
      by (auto simp: distinct_map inj_on_def dest: day_label_inject)
    show "\<And>d. d \<in> set [0..<nat n] \<Longrightarrow> ?blk d \<noteq> []" using m by simp
  qed (auto simp: var_name_day dict_keys_def)
  moreover have "map snd (?blk d) = List.map_filter (\<lambda>s. map_of c (var_name (int d) (int s))) [0..<nat m]"
    if "d \<in> set [0..<nat n]" for d
  proof -
    have "\<forall>s \<in> set [0..<nat m]. map_of c (var_name (int d) (int s)) \<noteq> None"
    proof
      fix s
      assume that: "s \<in> set [0..<nat m]"
      show "map_of c (var_name (int d) (int s)) \<noteq> None"
    proof -
      have "var_name (int d) (int s) \<in> set (make_variables n m)"
        using that \<open>d \<in> set [0..<nat n]\<close> by (force simp: make_variables_nat)
      then show ?thesis using keys by (metis map_of_eq_None_iff set_map)
    qed
    qed
    then show ?thesis by (simp add: map_filter_total comp_def)
  qed
  ultimately show ?thesis using c by (simp cong: map_cong)
qed

section \<open>The scheduler as a whole\<close>

lemma food_after_slot_var:
  "food_after_slot cfg a (var_name (int d) (int s)) x
     = Inr (category x = Some ''food'' \<longrightarrow> dict_get cfg ''food_after_slot'' 1 \<le> int (Suc s))"
  unfolding food_after_slot_def var_name_piece sum.case slot_piece_number by simp

lemma scheduler_check:
  "check_constraints [no_duplicate, food_after_slot cfg] a (var_name (int d) (int s)) x
     = Inr (x \<notin> set (dict_values a) \<and>
            (category x = Some ''food'' \<longrightarrow> dict_get cfg ''food_after_slot'' 1 \<le> int (Suc s)))"
  by (simp add: no_duplicate_def food_after_slot_var)

lemma make_variables_elem:
  "v \<in> set (make_variables n m) \<Longrightarrow> \<exists>d s. d < nat n \<and> s < nat m \<and> v = var_name (int d) (int s)"
  by (fastforce simp: make_variables_nat)

lemma scheduler_check_total:
  "v \<in> set (make_variables n m) \<Longrightarrow> \<exists>b. check_constraints [no_duplicate, food_after_slot cfg] a v x = Inr b"
  by (auto dest!: make_variables_elem simp: scheduler_check simp del: check_constraints.simps)

lemma dict_getitem_const: "v \<in> set vs \<Longrightarrow> dict_getitem (map (\<lambda>var. (var, c)) vs) v = Inr c"
proof -
  assume "v \<in> set vs"
  then have "map_of (map (\<lambda>var. (var, c)) vs) v = Some c"
    by (induction vs) auto
  then show ?thesis by (simp add: dict_getitem_def)
qed

lemma backtrack_make_csp:
  "backtrack (make_csp activities start_date end_date cfg) []
     = Inr (found [] (first_solution activities start_date end_date cfg))"
proof -
  let ?vs = "make_variables (end_date - start_date + 1) (dict_get cfg ''max_per_day'' 3)"
  let ?csp = "make_csp activities start_date end_date cfg"
  have v: "variables ?csp = ?vs" and d: "domains ?csp = map (\<lambda>var. (var, activities)) ?vs"
    and c: "constraints ?csp = [no_duplicate, food_after_slot cfg]"
    by (simp_all add: make_csp_def Let_def)
  have "backtrack ?csp [] = Inr (found [] (find (admissible (constraints ?csp) []) (candidates ?vs activities)))"
  proof (rule backtrack_first[where ?done = "[]"])
    show "distinct ([] @ ?vs)" by (simp add: distinct_make_variables)
    show "variables ?csp = [] @ ?vs" by (simp add: v)
    show "dict_keys [] = []" by (simp add: dict_keys_def)
    show "\<And>v. v \<in> set ?vs \<Longrightarrow> dict_getitem (domains ?csp) v = Inr activities"
      by (simp add: d dict_getitem_const)
    show "\<And>a v x. v \<in> set ?vs \<Longrightarrow> \<exists>b. check_constraints (constraints ?csp) a v x = Inr b"
      unfolding c by (rule scheduler_check_total)
  qed
  then show ?thesis by (simp add: first_solution_def c)
qed

lemma first_solution_Some:
  assumes "first_solution activities start_date end_date cfg = Some c"
  shows "c \<in> set (candidates (make_variables (end_date - start_date + 1) (dict_get cfg ''max_per_day'' 3)) activities)"
    and "admissible [no_duplicate, food_after_slot cfg] [] c"
  using assms by (auto simp: first_solution_def find_Some_iff)

lemma first_solution_keys:
  assumes "first_solution activities start_date end_date cfg = Some c"
  shows "map fst c = make_variables (end_date - start_date + 1) (dict_get cfg ''max_per_day'' 3)"
    and "set (map snd c) \<subseteq> set activities"
  using first_solution_Some(1)[OF assms] candidates_keys by blast+

lemma make_variables_nonempty:
  assumes "make_variables n m \<noteq> []"
  shows "0 < n" and "0 < m"
  using assms make_variables_empty[of n m] by (auto simp: not_le[symmetric])

lemma generate_schedule_eq:
  "generate_schedule activities start_date end_date cfg =
     Inr (case first_solution activities start_date end_date cfg of
            None \<Rightarrow> no_solution_message
          | Some c \<Rightarrow>
              if c = [] then no_solution_message
              else schedule_of (nat (end_date - start_date + 1)) (nat (dict_get cfg ''max_per_day'' 3)) c)"
proof (cases "first_solution activities start_date end_date cfg")
  case None
  then show ?thesis by (simp add: generate_schedule_def backtrack_make_csp found_def)
next
  case (Some c)
  show ?thesis
  proof (cases "c = []")
    case True
    with Some show ?thesis by (simp add: generate_schedule_def backtrack_make_csp found_def)
  next
    case False
    let ?n = "end_date - start_date + 1" and ?m = "dict_get cfg ''max_per_day'' 3"
    have keys: "map fst c = make_variables ?n ?m" by (rule first_solution_keys(1)[OF Some])
    with False have "make_variables ?n ?m \<noteq> []" by auto
    then have "0 < ?m" by (rule make_variables_nonempty)
    from format_days_schedule[OF keys this] Some False show ?thesis
      by (simp add: generate_schedule_def backtrack_make_csp found_def schedule_of_def)
  qed
qed

lemma admissible_scheduler:
  assumes "admissible [no_duplicate, food_after_slot cfg] a c"
    and "set (map fst c) \<subseteq> set (make_variables n m)"
  shows "distinct (map snd c) \<and> set (map snd c) \<inter> set (map snd a) = {} \<and>
    (\<forall>d s x. (var_name (int d) (int s), x) \<in> set c \<longrightarrow> category x = Some ''food'' \<longrightarrow>
        dict_get cfg ''food_after_slot'' 1 \<le> int (Suc s))"
  using assms
proof (induction c arbitrary: a)
  case Nil
  show ?case by simp
next
  case (Cons p c)
  obtain v x where p: "p = (v, x)" by (cases p)
  from Cons.prems(2) p obtain d s where v: "v = var_name (int d) (int s)"
    using make_variables_elem[of v n m] by auto
  from Cons.prems(1) have chk: "check_constraints [no_duplicate, food_after_slot cfg] a v x = Inr True"
    and rest: "admissible [no_duplicate, food_after_slot cfg] (a @ [(v, x)]) c"
    by (simp_all add: p)
  from chk have x: "x \<notin> set (map snd a)"
    and food: "category x = Some ''food'' \<longrightarrow> dict_get cfg ''food_after_slot'' 1 \<le> int (Suc s)"
    unfolding v scheduler_check by (simp_all add: dict_values_def)
  from Cons.IH[OF rest] Cons.prems(2)
  have ih: "distinct (map snd c)" "set (map snd c) \<inter> set (map snd (a @ [(v, x)])) = {}"
    "\<forall>d s x. (var_name (int d) (int s), x) \<in> set c \<longrightarrow> category x = Some ''food'' \<longrightarrow>
        dict_get cfg ''food_after_slot'' 1 \<le> int (Suc s)"
    by simp_all
  have "\<forall>d' s' x'. (var_name (int d') (int s'), x') \<in> set (p # c) \<longrightarrow> category x' = Some ''food'' \<longrightarrow>
        dict_get cfg ''food_after_slot'' 1 \<le> int (Suc s')"
  proof (intro allI impI)
    fix d' s' x'
    assume mem: "(var_name (int d') (int s'), x') \<in> set (p # c)" and f: "category x' = Some ''food''"
    show "dict_get cfg ''food_after_slot'' 1 \<le> int (Suc s')"
    proof (cases "(var_name (int d') (int s'), x') = p")
      case True
      with p v have "var_name (int d') (int s') = var_name (int d) (int s)" "x' = x" by simp_all
      with var_name_inject[of d' s' d s] food f show ?thesis by simp
    next
      case False
      with mem ih(3) f show ?thesis by auto
    qed
  qed
  with ih(1,2) x show ?case by (auto simp: p)
qed

section \<open>The claims about calls without slot variables\<close>

text \<open>
  C10. When the formulation yields no slot variable (as it does when \<open>end_date\<close> is before
  \<open>start_date\<close> or \<open>max_per_day\<close> is not positive), \<open>backtrack\<close> returns the empty
  assignment at once; the empty dict is false for \<^verbatim>\<open>if not result\<close>, and the call
  returns the no-solution message mapping, neither an empty schedule nor an error.
\<close>

theorem zero_variables_give_no_solution_message:
  "(end_date < start_date \<or> dict_get cfg ''max_per_day'' 3 \<le> 0 \<longrightarrow>
      make_variables (end_date - start_date + 1) (dict_get cfg ''max_per_day'' 3) = []) \<and>
   (make_variables (end_date - start_date + 1) (dict_get cfg ''max_per_day'' 3) = [] \<longrightarrow>
      backtrack (make_csp activities start_date end_date cfg) [] = Inr (Some [], []) \<and>
      \<not> truthy (Some ([] :: 'b activity_scheme assignment)) \<and>
      generate_schedule (activities :: 'b activity_scheme list) start_date end_date cfg
        = Inr no_solution_message)"
proof -
  have "variables (make_csp activities start_date end_date cfg)
      = make_variables (end_date - start_date + 1) (dict_get cfg ''max_per_day'' 3)"
    by (simp add: make_csp_def Let_def)
  then show ?thesis
    using make_variables_empty[of "end_date - start_date + 1" "dict_get cfg ''max_per_day'' 3"]
      generate_schedule_no_variables[of end_date start_date cfg activities]
      backtrack_no_variables[of "make_csp activities start_date end_date cfg"]
    by auto
qed

theorem zero_variables_give_no_solution_message_witness:
  "((3::int) < 5 \<or> dict_get (Map.empty :: config) ''max_per_day'' 3 \<le> 0) \<and>
   make_variables (3 - 5 + 1) (dict_get (Map.empty :: config) ''max_per_day'' 3) = [] \<and>
   backtrack (make_csp [\<lparr>category = Some ''food''\<rparr>] 5 3 Map.empty) [] = Inr (Some [], []) \<and>
   generate_schedule [\<lparr>category = Some ''food''\<rparr>] 5 3 Map.empty = Inr no_solution_message"
  using zero_variables_give_no_solution_message[of 3 5 Map.empty "[\<lparr>category = Some ''food''\<rparr>]"]
  by auto

text \<open>
  C1, as stated: a call with \<open>end_date\<close> before \<open>start_date\<close> is rejected with an input
  error before the search. It is not: \<open>generate_schedule\<close> has no validation step, and
  for the dates 5 and 3 it returns the no-solution message mapping.
\<close>

theorem inverted_range_not_rejected_counterexample:
  "(3::int) < 5 \<and> \<not> isl (generate_schedule [\<lparr>category = Some ''food''\<rparr>] 5 3 Map.empty) \<and>
   generate_schedule [\<lparr>category = Some ''food''\<rparr>] 5 3 Map.empty = Inr no_solution_message"
  by code_simp

text \<open>
  C1, amended: a call with \<open>end_date\<close> before \<open>start_date\<close> raises nothing and returns
  the no-solution message mapping, whatever the activities and the configuration.
\<close>

theorem inverted_range_gives_no_solution_message:
  "end_date < start_date \<Longrightarrow>
     generate_schedule activities start_date end_date cfg = Inr no_solution_message"
  by (rule generate_schedule_no_variables) (simp add: make_variables_empty)

theorem inverted_range_gives_no_solution_message_witness:
  "(9::int) < 10 \<and>
   generate_schedule [\<lparr>category = Some ''sight''\<rparr>] 10 9 [''max_per_day'' \<mapsto> 2] = Inr no_solution_message"
  using inverted_range_gives_no_solution_message[of 9 10 "[\<lparr>category = Some ''sight''\<rparr>]" "[''max_per_day'' \<mapsto> 2]"]
  by simp

section \<open>The shape of a returned schedule\<close>

lemma assigned_slot:
  assumes keys: "map fst c = make_variables n m" and "d < nat n" and "s < nat m"
  shows "\<exists>x. map_of c (var_name (int d) (int s)) = Some x \<and> (var_name (int d) (int s), x) \<in> set c"
proof -
  have "var_name (int d) (int s) \<in> set (make_variables n m)"
    using assms(2,3) by (force simp: make_variables_nat)
  then have "map_of c (var_name (int d) (int s)) \<noteq> None"
    using keys by (metis map_of_eq_None_iff set_map)
  then show ?thesis by (auto dest: map_of_SomeD)
qed

lemma schedule_of_total:
  assumes keys: "map fst c = make_variables n m"
  shows "schedule_of (nat n) (nat m) c =
     map (\<lambda>d. (day_label (Suc d), PyList (map (\<lambda>s. the (map_of c (var_name (int d) (int s)))) [0..<nat m])))
       [0..<nat n]"
proof -
  have "List.map_filter (\<lambda>s. map_of c (var_name (int d) (int s))) [0..<nat m]
      = map (\<lambda>s. the (map_of c (var_name (int d) (int s)))) [0..<nat m]" if "d < nat n" for d
  proof (rule map_filter_total, rule ballI)
    fix s
    assume "s \<in> set [0..<nat m]"
    then have "s < nat m" by simp
    from assigned_slot[OF keys that this]
    show "map_of c (var_name (int d) (int s)) \<noteq> None" by auto
  qed
  then show ?thesis by (simp add: schedule_of_def)
qed

lemma assignment_values:
  assumes keys: "map fst c = make_variables n m"
  shows "map snd c = concat (map (\<lambda>d. map (\<lambda>s. the (map_of c (var_name (int d) (int s)))) [0..<nat m]) [0..<nat n])"
proof -
  have "distinct (map fst c)" using keys distinct_make_variables by simp
  then have "c = map (\<lambda>v. (v, the (map_of c v))) (make_variables n m)"
    using assoc_list_rebuild[of c] keys by simp
  then have "map snd c = map (\<lambda>v. the (map_of c v)) (make_variables n m)"
    by (metis (no_types, lifting) map_map comp_def snd_conv map_cong)
  then show ?thesis by (simp add: make_variables_nat map_concat comp_def)
qed

lemma scheduled_schedule_of:
  assumes keys: "map fst c = make_variables n m"
  shows "scheduled_activities (schedule_of (nat n) (nat m) c) = map snd c"
  by (simp add: schedule_of_total[OF keys] assignment_values[OF keys] scheduled_activities_def comp_def)

lemma first_solution_valid:
  assumes fs: "first_solution activities start_date end_date cfg = Some c"
  shows "distinct (map snd c)"
    and "(var_name (int d) (int s), x) \<in> set c \<Longrightarrow> category x = Some ''food'' \<Longrightarrow>
      dict_get cfg ''food_after_slot'' 1 \<le> int (Suc s)"
proof -
  let ?n = "end_date - start_date + 1" and ?m = "dict_get cfg ''max_per_day'' 3"
  have "set (map fst c) \<subseteq> set (make_variables ?n ?m)"
    using first_solution_keys(1)[OF fs] by simp
  note v = admissible_scheduler[OF first_solution_Some(2)[OF fs] this]
  from v show "distinct (map snd c)" by blast
  from v show "(var_name (int d) (int s), x) \<in> set c \<Longrightarrow> category x = Some ''food'' \<Longrightarrow>
      dict_get cfg ''food_after_slot'' 1 \<le> int (Suc s)" by blast
qed

lemma generate_schedule_cases:
  assumes "generate_schedule activities start_date end_date cfg = Inr out"
  obtains (none) "out = no_solution_message"
  | (some) c where "first_solution activities start_date end_date cfg = Some c" and "c \<noteq> []"
      and "out = schedule_of (nat (end_date - start_date + 1)) (nat (dict_get cfg ''max_per_day'' 3)) c"
      and "out \<noteq> no_solution_message"
proof (cases "first_solution activities start_date end_date cfg")
  case None
  with assms have "out = no_solution_message" by (simp add: generate_schedule_eq)
  then show ?thesis by (rule none)
next
  case (Some c)
  show ?thesis
  proof (cases "c = []")
    case True
    with Some assms have "out = no_solution_message" by (simp add: generate_schedule_eq)
    then show ?thesis by (rule none)
  next
    case False
    let ?n = "end_date - start_date + 1" and ?m = "dict_get cfg ''max_per_day'' 3"
    from Some False assms have out: "out = schedule_of (nat ?n) (nat ?m) c"
      by (simp add: generate_schedule_eq)
    have keys: "map fst c = make_variables ?n ?m" by (rule first_solution_keys(1)[OF Some])
    with False have "make_variables ?n ?m \<noteq> []" by auto
    then have "0 < ?n" by (rule make_variables_nonempty)
    then have "schedule_of (nat ?n) (nat ?m) c \<noteq> []" by (simp add: schedule_of_def)
    moreover have "fst (hd (schedule_of (nat ?n) (nat ?m) c)) = day_label (Suc 0)"
      using \<open>0 < ?n\<close> by (simp add: schedule_of_def hd_map upt_conv_Cons)
    ultimately have "schedule_of (nat ?n) (nat ?m) c \<noteq> no_solution_message"
      by (auto simp: no_solution_message_def day_label_def)
    with Some False out show ?thesis by (intro some[of c]) simp_all
  qed
qed

section \<open>The claims about produced schedules\<close>

text \<open>
  C3. In whatever \<open>generate_schedule\<close> returns, no activity value occurs twice over all
  days (activities are compared by value; the message mapping holds none).
\<close>

theorem no_duplicate_activities:
  "generate_schedule activities start_date end_date cfg = Inr out \<Longrightarrow>
     distinct (scheduled_activities out)"
proof (erule generate_schedule_cases)
  assume "out = no_solution_message"
  then show ?thesis by (simp add: scheduled_activities_def no_solution_message_def)
next
  fix c
  assume fs: "first_solution activities start_date end_date cfg = Some c"
    and out: "out = schedule_of (nat (end_date - start_date + 1)) (nat (dict_get cfg ''max_per_day'' 3)) c"
  have keys: "map fst c = make_variables (end_date - start_date + 1) (dict_get cfg ''max_per_day'' 3)"
    by (rule first_solution_keys(1)[OF fs])
  have "distinct (map snd c)" by (rule first_solution_valid(1)[OF fs])
  then show ?thesis by (simp add: out scheduled_schedule_of[OF keys])
qed

theorem no_duplicate_activities_witness:
  "generate_schedule [museum, lunch, park] 10 10 [''max_per_day'' \<mapsto> 3, ''food_after_slot'' \<mapsto> 2]
     = Inr [(''Day1'', PyList [museum, lunch, park])] \<and>
   distinct (scheduled_activities [(''Day1'', PyList [museum, lunch, park])])"
proof -
  have run: "generate_schedule [museum, lunch, park] 10 10 [''max_per_day'' \<mapsto> 3, ''food_after_slot'' \<mapsto> 2]
     = Inr [(''Day1'', PyList [museum, lunch, park])]"
    by code_simp
  from run no_duplicate_activities[OF run] show ?thesis by simp
qed

lemma schedule_of_entry:
  assumes keys: "map fst c = make_variables n m"
    and mem: "(day, PyList l) \<in> set (schedule_of (nat n) (nat m) c)"
  shows "\<exists>d < nat n. day = day_label (Suc d) \<and> length l = nat m \<and>
      (\<forall>i < nat m. map_of c (var_name (int d) (int i)) = Some (l ! i) \<and>
          (var_name (int d) (int i), l ! i) \<in> set c)"
proof -
  from mem obtain d where d: "d < nat n" "day = day_label (Suc d)"
    and l: "l = map (\<lambda>s. the (map_of c (var_name (int d) (int s)))) [0..<nat m]"
    unfolding schedule_of_total[OF keys] by auto
  have "map_of c (var_name (int d) (int i)) = Some (l ! i) \<and> (var_name (int d) (int i), l ! i) \<in> set c"
    if "i < nat m" for i
    using assigned_slot[OF keys d(1) that] that by (auto simp: l)
  with d l show ?thesis by auto
qed

lemma backtrack_found:
  assumes "first_solution activities start_date end_date cfg = Some c"
  shows "backtrack (make_csp activities start_date end_date cfg) [] = Inr (Some c, c)"
  using assms by (simp add: backtrack_make_csp found_def)

text \<open>
  C4. In a returned schedule, a food activity at position \<open>i\<close> (counted from 0) of a
  day's list is the activity the search assigned to slot \<open>i + 1\<close> of that same
  day, and \<open>i + 1\<close> is at least the configured \<^verbatim>\<open>food_after_slot\<close> (1 when the option is
  absent): the index compared is the slot number within the day.
\<close>

theorem food_after_slot_in_schedule:
  assumes "generate_schedule activities start_date end_date cfg = Inr out"
    and "(day, PyList l) \<in> set out" and "i < length l" and "category (l ! i) = Some ''food''"
  shows "dict_get cfg ''food_after_slot'' 1 \<le> int i + 1 \<and>
    (\<exists>d c. day = day_label (Suc d) \<and>
       backtrack (make_csp activities start_date end_date cfg) [] = Inr (Some c, c) \<and>
       map_of c (var_name (int d) (int i)) = Some (l ! i))"
  using assms(1)
proof (cases rule: generate_schedule_cases)
  case none
  with assms(2) show ?thesis by (simp add: no_solution_message_def)
next
  case (some c)
  let ?n = "end_date - start_date + 1" and ?m = "dict_get cfg ''max_per_day'' 3"
  have keys: "map fst c = make_variables ?n ?m" by (rule first_solution_keys(1)[OF some(1)])
  from schedule_of_entry[OF keys] assms(2) some(3)
  obtain d where d: "day = day_label (Suc d)" "length l = nat ?m"
    and slots: "\<forall>i < nat ?m. map_of c (var_name (int d) (int i)) = Some (l ! i) \<and>
          (var_name (int d) (int i), l ! i) \<in> set c"
    by blast
  from slots assms(3) d(2) have at: "map_of c (var_name (int d) (int i)) = Some (l ! i)"
    and mem: "(var_name (int d) (int i), l ! i) \<in> set c"
    by simp_all
  from first_solution_valid(2)[OF some(1) mem assms(4)]
  have "dict_get cfg ''food_after_slot'' 1 \<le> int i + 1" by simp
  with d(1) at backtrack_found[OF some(1)] show ?thesis by blast
qed

theorem food_after_slot_in_schedule_witness:
  "generate_schedule [lunch, museum, park] 10 10 [''max_per_day'' \<mapsto> 3, ''food_after_slot'' \<mapsto> 2]
     = Inr [(''Day1'', PyList [museum, lunch, park])] \<and>
   (''Day1'', PyList [museum, lunch, park]) \<in> set [(''Day1'', PyList [museum, lunch, park])] \<and>
   (1::nat) < length [museum, lunch, park] \<and> category ([museum, lunch, park] ! 1) = Some ''food'' \<and>
   dict_get [''max_per_day'' \<mapsto> 3, ''food_after_slot'' \<mapsto> 2] ''food_after_slot'' 1 \<le> int 1 + 1"
proof -
  have run: "generate_schedule [lunch, museum, park] 10 10 [''max_per_day'' \<mapsto> 3, ''food_after_slot'' \<mapsto> 2]
     = Inr [(''Day1'', PyList [museum, lunch, park])]"
    by code_simp
  have mem: "(''Day1'', PyList [museum, lunch, park]) \<in> set [(''Day1'', PyList [museum, lunch, park])]"
    by simp
  have pos: "(1::nat) < length [museum, lunch, park]" by simp
  have food: "category ([museum, lunch, park] ! 1) = Some ''food''" by (simp add: lunch_def)
  from food_after_slot_in_schedule[OF run mem pos food] run mem pos food show ?thesis by blast
qed

text \<open>
  C5. \<open>generate_schedule\<close> raises nothing and returns either the no-solution message
  mapping or a complete schedule: the search has assigned every generated variable, the
  day keys are \<^verbatim>\<open>Day1\<close> up to the day count \<^verbatim>\<open>(end_date - start_date).days + 1\<close>, without
  repetition, and each day holds exactly \<^verbatim>\<open>max_per_day\<close> activities (3 when the option
  is absent).
\<close>

theorem complete_schedule_or_no_solution:
  "\<exists>out. generate_schedule activities start_date end_date cfg = Inr out \<and>
     (out = no_solution_message \<or>
      (\<exists>c. backtrack (make_csp activities start_date end_date cfg) [] = Inr (Some c, c) \<and>
           map fst c = make_variables (end_date - start_date + 1) (dict_get cfg ''max_per_day'' 3) \<and>
           map fst out = map (\<lambda>d. day_label (Suc d)) [0..<nat (end_date - start_date + 1)] \<and>
           distinct (map fst out) \<and>
           int (length out) = end_date - start_date + 1 \<and>
           (\<forall>day v. (day, v) \<in> set out \<longrightarrow>
              (\<exists>l. v = PyList l \<and> int (length l) = dict_get cfg ''max_per_day'' 3))))"
proof -
  let ?n = "end_date - start_date + 1" and ?m = "dict_get cfg ''max_per_day'' 3"
  obtain out where run: "generate_schedule activities start_date end_date cfg = Inr out"
    by (simp add: generate_schedule_eq)
  from run show ?thesis
  proof (cases rule: generate_schedule_cases)
    case none
    with run show ?thesis by blast
  next
    case (some c)
    have keys: "map fst c = make_variables ?n ?m" by (rule first_solution_keys(1)[OF some(1)])
    with some(2) have "make_variables ?n ?m \<noteq> []" by auto
    then have pos: "0 < ?n" "0 < ?m" by (rule make_variables_nonempty)+
    have out: "out = map (\<lambda>d. (day_label (Suc d),
        PyList (map (\<lambda>s. the (map_of c (var_name (int d) (int s)))) [0..<nat ?m]))) [0..<nat ?n]"
      unfolding some(3) by (rule schedule_of_total[OF keys])
    have k: "map fst out = map (\<lambda>d. day_label (Suc d)) [0..<nat ?n]"
      by (simp add: out comp_def)
    have "distinct (map (\<lambda>d. day_label (Suc d)) [0..<nat ?n])"
      by (auto simp: distinct_map inj_on_def dest: day_label_inject)
    with k have dk: "distinct (map fst out)" by simp
    have len: "int (length out) = ?n" using pos(1) by (simp add: out)
    have "\<exists>l. v = PyList l \<and> int (length l) = ?m" if "(day, v) \<in> set out" for day v
      using that pos(2) by (auto simp: out)
    with run backtrack_found[OF some(1)] keys k dk len show ?thesis by blast
  qed
qed

theorem complete_schedule_or_no_solution_witness:
  "generate_schedule [museum, lunch, park] 10 11 [''max_per_day'' \<mapsto> 1] = Inr [(''Day1'', PyList [museum]), (''Day2'', PyList [lunch])] \<and>
   [(''Day1'', PyList [museum]), (''Day2'', PyList [lunch])] \<noteq> no_solution_message \<and>
   int (length [(''Day1'', PyList [museum]), (''Day2'', PyList [lunch])]) = 11 - 10 + 1"
proof -
  have run: "generate_schedule [museum, lunch, park] 10 11 [''max_per_day'' \<mapsto> 1]
      = Inr [(''Day1'', PyList [museum]), (''Day2'', PyList [lunch])]"
    by code_simp
  have ne: "[(''Day1'', PyList [museum]), (''Day2'', PyList [lunch])] \<noteq> no_solution_message"
    by (simp add: no_solution_message_def)
  from complete_schedule_or_no_solution[of "[museum, lunch, park]" 10 11 "[''max_per_day'' \<mapsto> 1]"] run ne
  show ?thesis by auto
qed

lemma generate_schedule_total: "\<not> isl (generate_schedule activities start_date end_date cfg)"
  by (simp add: generate_schedule_eq)

lemma schedule_of_keys:
  "dict_keys (schedule_of n m c) = map (\<lambda>d. day_label (Suc d)) [0..<n]"
  by (simp add: schedule_of_def dict_keys_def comp_def)

lemma message_is_no_day_label: "''message'' \<noteq> day_label d"
  by (simp add: day_label_def)

text \<open>
  C7, as stated: the day lists are in ascending slot order whether or not the assignment
  dict iterates in insertion order. The formatting loop does not sort: it appends in the
  order \<^verbatim>\<open>result.items()\<close> yields. For two activities on one day of two slots the search
  returns \<^verbatim>\<open>{Day1_Slot1: museum, Day1_Slot2: park}\<close>; fed the same two items in the other
  order, the loop puts the activity of slot 2 before that of slot 1.
\<close>

theorem formatting_keeps_iteration_order_counterexample:
  "backtrack (make_csp [museum, park] 1 1 [''max_per_day'' \<mapsto> 2]) []
     = Inr (Some [(''Day1_Slot1'', museum), (''Day1_Slot2'', park)],
            [(''Day1_Slot1'', museum), (''Day1_Slot2'', park)]) \<and>
   set [(''Day1_Slot2'', park), (''Day1_Slot1'', museum)]
     = set [(''Day1_Slot1'', museum), (''Day1_Slot2'', park)] \<and>
   format_days [(''Day1_Slot2'', park), (''Day1_Slot1'', museum)] [] = Inr [(''Day1'', [park, museum])] \<and>
   format_days [(''Day1_Slot1'', museum), (''Day1_Slot2'', park)] [] = Inr [(''Day1'', [museum, park])]"
proof (intro conjI)
  show "backtrack (make_csp [museum, park] 1 1 [''max_per_day'' \<mapsto> 2]) []
     = Inr (Some [(''Day1_Slot1'', museum), (''Day1_Slot2'', park)],
            [(''Day1_Slot1'', museum), (''Day1_Slot2'', park)])"
    by code_simp
  show "set [(''Day1_Slot2'', park), (''Day1_Slot1'', museum)]
     = set [(''Day1_Slot1'', museum), (''Day1_Slot2'', park)]"
    by auto
  show "format_days [(''Day1_Slot2'', park), (''Day1_Slot1'', museum)] [] = Inr [(''Day1'', [park, museum])]"
    by code_simp
  show "format_days [(''Day1_Slot1'', museum), (''Day1_Slot2'', park)] [] = Inr [(''Day1'', [museum, park])]"
    by code_simp
qed

text \<open>
  C7, amended: the assignment the search returns lists the variables in the order they
  were generated (day-major, slot-minor), which is the order a Python dict iterates in;
  the schedule formatted from it has, for every day in turn, the list whose position
  \<open>i\<close> holds the activity assigned to slot \<open>i + 1\<close> of that day.
\<close>

theorem day_lists_in_slot_order:
  assumes "generate_schedule activities start_date end_date cfg = Inr out"
    and "out \<noteq> no_solution_message"
  shows "\<exists>c. backtrack (make_csp activities start_date end_date cfg) [] = Inr (Some c, c) \<and>
      map fst c = make_variables (end_date - start_date + 1) (dict_get cfg ''max_per_day'' 3) \<and>
      format_days c [] = Inr (map (\<lambda>(day_key, v). (day_key, case v of PyList acts \<Rightarrow> acts | PyStr msg \<Rightarrow> [])) out) \<and>
      length out = nat (end_date - start_date + 1) \<and>
      (\<forall>d < nat (end_date - start_date + 1).
         \<exists>l. out ! d = (day_label (Suc d), PyList l) \<and>
             length l = nat (dict_get cfg ''max_per_day'' 3) \<and>
             (\<forall>i < nat (dict_get cfg ''max_per_day'' 3).
                map_of c (var_name (int d) (int i)) = Some (l ! i)))"
  using assms(1)
proof (cases rule: generate_schedule_cases)
  case none
  with assms(2) show ?thesis by simp
next
  case (some c)
  let ?n = "end_date - start_date + 1" and ?m = "dict_get cfg ''max_per_day'' 3"
  have keys: "map fst c = make_variables ?n ?m" by (rule first_solution_keys(1)[OF some(1)])
  with some(2) have "make_variables ?n ?m \<noteq> []" by auto
  then have pos: "0 < ?m" by (rule make_variables_nonempty)
  have out: "out = map (\<lambda>d. (day_label (Suc d),
      PyList (map (\<lambda>s. the (map_of c (var_name (int d) (int s)))) [0..<nat ?m]))) [0..<nat ?n]"
    unfolding some(3) by (rule schedule_of_total[OF keys])
  have fmt: "format_days c [] = Inr (map (\<lambda>(day_key, v). (day_key, case v of PyList acts \<Rightarrow> acts | PyStr msg \<Rightarrow> [])) out)"
    unfolding format_days_schedule[OF keys pos] some(3) schedule_of_def by (simp add: comp_def)
  have "\<exists>l. out ! d = (day_label (Suc d), PyList l) \<and> length l = nat ?m \<and>
      (\<forall>i < nat ?m. map_of c (var_name (int d) (int i)) = Some (l ! i))" if "d < nat ?n" for d
  proof (intro exI conjI allI impI)
    show "out ! d = (day_label (Suc d), PyList (map (\<lambda>s. the (map_of c (var_name (int d) (int s)))) [0..<nat ?m]))"
      using that by (simp add: out)
    show "length (map (\<lambda>s. the (map_of c (var_name (int d) (int s)))) [0..<nat ?m]) = nat ?m" by simp
    fix i
    assume "i < nat ?m"
    with assigned_slot[OF keys that this]
    show "map_of c (var_name (int d) (int i)) = Some (map (\<lambda>s. the (map_of c (var_name (int d) (int s)))) [0..<nat ?m] ! i)"
      by auto
  qed
  moreover have "length out = nat ?n" by (simp add: out)
  ultimately show ?thesis using backtrack_found[OF some(1)] keys fmt by blast
qed

theorem day_lists_in_slot_order_witness:
  "generate_schedule [museum, lunch, park] 10 10 [''max_per_day'' \<mapsto> 2] = Inr [(''Day1'', PyList [museum, lunch])] \<and>
   [(''Day1'', PyList [museum, lunch])] \<noteq> no_solution_message \<and>
   (\<exists>c. backtrack (make_csp [museum, lunch, park] 10 10 [''max_per_day'' \<mapsto> 2]) [] = Inr (Some c, c) \<and>
      format_days c [] = Inr [(''Day1'', [museum, lunch])])"
proof -
  have run: "generate_schedule [museum, lunch, park] 10 10 [''max_per_day'' \<mapsto> 2]
      = Inr [(''Day1'', PyList [museum, lunch])]"
    by code_simp
  have ne: "[(''Day1'', PyList [museum, lunch])] \<noteq> no_solution_message"
    by (simp add: no_solution_message_def)
  from day_lists_in_slot_order[OF run ne] run ne show ?thesis by auto
qed

text \<open>
  C8. \<open>generate_schedule\<close> never raises. When the search ends without an assignment
  (which is when no candidate is admissible), it returns the message mapping: a
  non-empty dict with the key \<^verbatim>\<open>"message"\<close>. Every other dict it returns is a non-empty
  schedule without that key, whose values are lists, so a caller can tell the two apart.
\<close>

theorem no_solution_is_returned_as_data:
  "\<not> isl (generate_schedule activities start_date end_date cfg) \<and>
   (first_solution activities start_date end_date cfg = None \<longrightarrow>
      backtrack (make_csp activities start_date end_date cfg) [] = Inr (None, []) \<and>
      generate_schedule activities start_date end_date cfg = Inr no_solution_message) \<and>
   (\<forall>a. backtrack (make_csp activities start_date end_date cfg) [] = Inr (None, a) \<longrightarrow>
      generate_schedule activities start_date end_date cfg = Inr no_solution_message) \<and>
   (no_solution_message :: (string, 'b activity_scheme py_value) dict) \<noteq> [] \<and>
   dict_contains ''message'' (no_solution_message :: (string, 'b activity_scheme py_value) dict) \<and>
   (\<forall>out. generate_schedule (activities :: 'b activity_scheme list) start_date end_date cfg = Inr out \<and>
        out \<noteq> no_solution_message \<longrightarrow>
      out \<noteq> [] \<and> \<not> dict_contains ''message'' out \<and> (\<forall>day v. (day, v) \<in> set out \<longrightarrow> (\<exists>l. v = PyList l)))"
proof (intro conjI allI impI)
  show "\<not> isl (generate_schedule activities start_date end_date cfg)"
    by (rule generate_schedule_total)
  show "(no_solution_message :: (string, 'b activity_scheme py_value) dict) \<noteq> []"
    by (simp add: no_solution_message_def)
  show "dict_contains ''message'' (no_solution_message :: (string, 'b activity_scheme py_value) dict)"
    by (simp add: no_solution_message_def dict_contains_def dict_keys_def)
next
  assume "first_solution activities start_date end_date cfg = None"
  then show "backtrack (make_csp activities start_date end_date cfg) [] = Inr (None, [])"
    and "generate_schedule activities start_date end_date cfg = Inr no_solution_message"
    by (simp_all add: backtrack_make_csp found_def generate_schedule_eq)
next
  fix a
  assume "backtrack (make_csp activities start_date end_date cfg) [] = Inr (None, a)"
  then show "generate_schedule activities start_date end_date cfg = Inr no_solution_message"
    by (simp add: generate_schedule_def)
next
  fix out
  assume h: "generate_schedule activities start_date end_date cfg = Inr out \<and> out \<noteq> no_solution_message"
  then have run: "generate_schedule activities start_date end_date cfg = Inr out" by simp
  from run have "out \<noteq> [] \<and> \<not> dict_contains ''message'' out \<and> (\<forall>day v. (day, v) \<in> set out \<longrightarrow> (\<exists>l. v = PyList l))"
  proof (cases rule: generate_schedule_cases)
    case none
    with h show ?thesis by simp
  next
    case (some c)
    let ?n = "end_date - start_date + 1" and ?m = "dict_get cfg ''max_per_day'' 3"
    have "map fst c = make_variables ?n ?m" by (rule first_solution_keys(1)[OF some(1)])
    with some(2) have "make_variables ?n ?m \<noteq> []" by auto
    then have "0 < ?n" by (rule make_variables_nonempty)
    then have "out \<noteq> []" by (simp add: some(3) schedule_of_def)
    moreover have "\<not> dict_contains ''message'' out"
      unfolding dict_contains_def some(3) schedule_of_keys using message_is_no_day_label by auto
    moreover have "\<forall>day v. (day, v) \<in> set out \<longrightarrow> (\<exists>l. v = PyList l)"
      by (auto simp: some(3) schedule_of_def)
    ultimately show ?thesis by blast
  qed
  then show "out \<noteq> []" and "\<not> dict_contains ''message'' out"
    and "\<And>day v. (day, v) \<in> set out \<Longrightarrow> \<exists>l. v = PyList l"
    by blast+
qed

theorem no_solution_is_returned_as_data_witness:
  "first_solution [museum] 10 11 [''max_per_day'' \<mapsto> 1] = None \<and>
   generate_schedule [museum] 10 11 [''max_per_day'' \<mapsto> 1] = Inr no_solution_message \<and>
   generate_schedule [museum, lunch, park] 10 10 Map.empty = Inr [(''Day1'', PyList [museum, lunch, park])] \<and>
   [(''Day1'', PyList [museum, lunch, park])] \<noteq> no_solution_message \<and>
   \<not> dict_contains ''message'' [(''Day1'', PyList [museum, lunch, park])]"
proof -
  have none: "first_solution [museum] 10 11 [''max_per_day'' \<mapsto> 1] = None"
    by code_simp
  have run: "generate_schedule [museum, lunch, park] 10 10 Map.empty = Inr [(''Day1'', PyList [museum, lunch, park])]"
    by code_simp
  have ne: "[(''Day1'', PyList [museum, lunch, park])] \<noteq> no_solution_message"
    by (simp add: no_solution_message_def)
  from no_solution_is_returned_as_data[of "[museum]" 10 11 "[''max_per_day'' \<mapsto> 1]"] none
  have a: "generate_schedule [museum] 10 11 [''max_per_day'' \<mapsto> 1] = Inr no_solution_message"
    by blast
  from no_solution_is_returned_as_data[of "[museum, lunch, park]" 10 10 Map.empty] run ne
  have b: "\<not> dict_contains ''message'' [(''Day1'', PyList [museum, lunch, park])]"
    by blast
  from none a run ne b show ?thesis by blast
qed

section \<open>The claims about the search\<close>



text \<open>
  C9. \<open>backtrack\<close> is a total function: its definition was accepted with a termination
  proof, for every CSP and every starting assignment. For any list of distinct variables
  whose domains are all a finite list of values, and constraints that do not raise on
  them, the call from the empty assignment returns exactly the first admissible one of
  the \<open>|vals| ^ |vs|\<close> candidate assignments, and it returns \<open>None\<close>, with the
  assignment empty again, exactly when the search space is exhausted: when none of the
  candidates is admissible.
\<close>

theorem backtrack_returns:
  assumes "distinct vs"
    and "\<forall>a v x. v \<in> set vs \<longrightarrow> (\<exists>b. check_constraints cs a v x = Inr b)"
  shows "backtrack \<lparr>variables = vs, domains = map (\<lambda>var. (var, vals)) vs, constraints = cs\<rparr> []
        = Inr (found [] (find (admissible cs []) (candidates vs vals))) \<and>
      (backtrack \<lparr>variables = vs, domains = map (\<lambda>var. (var, vals)) vs, constraints = cs\<rparr> []
        = Inr (None, []) \<longleftrightarrow> (\<forall>c \<in> set (candidates vs vals). \<not> admissible cs [] c)) \<and>
      (\<forall>r a. backtrack \<lparr>variables = vs, domains = map (\<lambda>var. (var, vals)) vs, constraints = cs\<rparr> []
        = Inr (r, a) \<longrightarrow>
          r = None \<or> (\<exists>c. r = Some c \<and> a = c \<and> c \<in> set (candidates vs vals) \<and> admissible cs [] c)) \<and>
      length (candidates vs vals) = length vals ^ length vs"
proof -
  let ?csp = "\<lparr>variables = vs, domains = map (\<lambda>var. (var, vals)) vs, constraints = cs\<rparr>"
  have bt: "backtrack ?csp [] = Inr (found [] (find (admissible (constraints ?csp) []) (candidates vs vals)))"
  proof (rule backtrack_first[where ?done = "[]"])
    show "distinct ([] @ vs)" using assms(1) by simp
    show "variables ?csp = [] @ vs" by simp
    show "dict_keys [] = []" by (simp add: dict_keys_def)
    show "\<And>v. v \<in> set vs \<Longrightarrow> dict_getitem (domains ?csp) v = Inr vals"
      by (simp add: dict_getitem_const)
    show "\<And>a v x. v \<in> set vs \<Longrightarrow> \<exists>b. check_constraints (constraints ?csp) a v x = Inr b"
      using assms(2) by simp
  qed
  then have eq: "backtrack ?csp [] = Inr (found [] (find (admissible cs []) (candidates vs vals)))"
    by simp
  have none: "backtrack ?csp [] = Inr (None, []) \<longleftrightarrow> (\<forall>c \<in> set (candidates vs vals). \<not> admissible cs [] c)"
  proof (cases "find (admissible cs []) (candidates vs vals)")
    case None
    then have "\<forall>c \<in> set (candidates vs vals). \<not> admissible cs [] c"
      by (auto simp: find_None_iff)
    moreover have "backtrack ?csp [] = Inr (None, [])"
      unfolding eq None by (simp add: found_def)
    ultimately show ?thesis by blast
  next
    case (Some c)
    then have "c \<in> set (candidates vs vals)" "admissible cs [] c"
      by (auto simp: find_Some_iff)
    moreover have "backtrack ?csp [] \<noteq> Inr (None, [])"
      unfolding eq Some by (simp add: found_def)
    ultimately show ?thesis by blast
  qed
  have shape: "r = None \<or> (\<exists>c. r = Some c \<and> a = c \<and> c \<in> set (candidates vs vals) \<and> admissible cs [] c)"
    if "backtrack ?csp [] = Inr (r, a)" for r a
  proof (cases "find (admissible cs []) (candidates vs vals)")
    case None
    from that have "r = None" unfolding eq None by (simp add: found_def)
    then show ?thesis by blast
  next
    case (Some c)
    then have "c \<in> set (candidates vs vals)" "admissible cs [] c"
      by (auto simp: find_Some_iff)
    moreover from that have "r = Some c" "a = c" unfolding eq Some by (auto simp: found_def)
    ultimately show ?thesis by blast
  qed
  from eq none shape length_candidates[of vs vals] show ?thesis by blast
qed

theorem backtrack_returns_witness:
  "distinct (make_variables 1 2) \<and>
   backtrack \<lparr>variables = make_variables 1 2, domains = map (\<lambda>var. (var, [lunch, museum])) (make_variables 1 2),
       constraints = [no_duplicate, food_after_slot Map.empty]\<rparr> []
     = Inr (Some [(''Day1_Slot1'', lunch), (''Day1_Slot2'', museum)],
            [(''Day1_Slot1'', lunch), (''Day1_Slot2'', museum)]) \<and>
   find (admissible [no_duplicate, food_after_slot Map.empty] []) (candidates (make_variables 1 2) [lunch, museum])
     = Some [(''Day1_Slot1'', lunch), (''Day1_Slot2'', museum)] \<and>
   backtrack \<lparr>variables = make_variables 1 2, domains = map (\<lambda>var. (var, [lunch])) (make_variables 1 2),
       constraints = [no_duplicate, food_after_slot Map.empty]\<rparr> []
     = Inr (None, []) \<and>
   \<not> admissible [no_duplicate, food_after_slot Map.empty] [] [(''Day1_Slot1'', lunch), (''Day1_Slot2'', lunch)] \<and>
   length (candidates (make_variables 1 2) [lunch, museum]) = length [lunch, museum] ^ length (make_variables 1 2)"
proof -
  have d: "distinct (make_variables 1 2)" by (rule distinct_make_variables)
  have t: "\<forall>a v x. v \<in> set (make_variables 1 2) \<longrightarrow>
      (\<exists>b. check_constraints [no_duplicate, food_after_slot Map.empty] a v (x :: named_activity) = Inr b)"
    using scheduler_check_total by blast
  have fs: "find (admissible [no_duplicate, food_after_slot Map.empty] []) (candidates (make_variables 1 2) [lunch, museum])
     = Some [(''Day1_Slot1'', lunch), (''Day1_Slot2'', museum)]"
    by code_simp
  have cs1: "candidates (make_variables 1 2) [lunch] = [[(''Day1_Slot1'', lunch), (''Day1_Slot2'', lunch)]]"
    by code_simp
  have na: "\<not> admissible [no_duplicate, food_after_slot Map.empty] [] [(''Day1_Slot1'', lunch), (''Day1_Slot2'', lunch)]"
    by code_simp
  note two = backtrack_returns[OF d t, of "[lunch, museum]"]
  note one = backtrack_returns[OF d t, of "[lunch]"]
  from two fs have run: "backtrack \<lparr>variables = make_variables 1 2,
       domains = map (\<lambda>var. (var, [lunch, museum])) (make_variables 1 2),
       constraints = [no_duplicate, food_after_slot Map.empty]\<rparr> []
     = Inr (Some [(''Day1_Slot1'', lunch), (''Day1_Slot2'', museum)],
            [(''Day1_Slot1'', lunch), (''Day1_Slot2'', museum)])"
    by (simp add: found_def)
  from one have "backtrack \<lparr>variables = make_variables 1 2,
       domains = map (\<lambda>var. (var, [lunch])) (make_variables 1 2),
       constraints = [no_duplicate, food_after_slot Map.empty]\<rparr> []
     = Inr (None, []) \<longleftrightarrow>
       (\<forall>c \<in> set (candidates (make_variables 1 2) [lunch]).
          \<not> admissible [no_duplicate, food_after_slot Map.empty] [] c)"
    by blast
  with na have ex: "backtrack \<lparr>variables = make_variables 1 2,
       domains = map (\<lambda>var. (var, [lunch])) (make_variables 1 2),
       constraints = [no_duplicate, food_after_slot Map.empty]\<rparr> []
     = Inr (None, [])"
    unfolding cs1 by (simp del: admissible.simps)
  from two have len: "length (candidates (make_variables 1 2) [lunch, museum])
      = length [lunch, museum] ^ length (make_variables 1 2)"
    by blast
  from d run fs ex na len show ?thesis by blast
qed

section \<open>The claim about the configuration values\<close>

lemma admissible_low_food_after_slot:
  assumes "dict_get cfg ''food_after_slot'' 1 \<le> 1" and "dict_get cfg' ''food_after_slot'' 1 \<le> 1"
    and "set (map fst c) \<subseteq> set (make_variables n m)"
  shows "admissible [no_duplicate, food_after_slot cfg] a c
    = admissible [no_duplicate, food_after_slot cfg'] a c"
  using assms(3)
proof (induction c arbitrary: a)
  case Nil
  show ?case by simp
next
  case (Cons p c)
  obtain v x where p: "p = (v, x)" by (cases p)
  from Cons.prems p obtain d s where v: "v = var_name (int d) (int s)"
    using make_variables_elem[of v n m] by auto
  have "check_constraints [no_duplicate, food_after_slot cfg] a v x
      = check_constraints [no_duplicate, food_after_slot cfg'] a v x"
    unfolding v scheduler_check using assms(1,2) by simp
  moreover have "admissible [no_duplicate, food_after_slot cfg] (a @ [(v, x)]) c
      = admissible [no_duplicate, food_after_slot cfg'] (a @ [(v, x)]) c"
    by (rule Cons.IH) (use Cons.prems in simp)
  ultimately show ?case by (simp add: p)
qed

lemma first_solution_low_food_after_slot:
  assumes "dict_get cfg ''food_after_slot'' 1 \<le> 1"
  shows "first_solution activities start_date end_date (cfg(''food_after_slot'' \<mapsto> 1))
    = first_solution activities start_date end_date cfg"
proof -
  let ?cfg' = "cfg(''food_after_slot'' \<mapsto> 1)"
  let ?vs = "make_variables (end_date - start_date + 1) (dict_get cfg ''max_per_day'' 3)"
  have m: "dict_get ?cfg' ''max_per_day'' 3 = dict_get cfg ''max_per_day'' 3"
    by (simp add: dict_get_def)
  have f: "dict_get ?cfg' ''food_after_slot'' 1 \<le> 1" by (simp add: dict_get_def)
  have "find (admissible [no_duplicate, food_after_slot ?cfg'] []) (candidates ?vs activities)
      = find (admissible [no_duplicate, food_after_slot cfg] []) (candidates ?vs activities)"
  proof (rule find_cong[OF refl])
    fix c
    assume "c \<in> set (candidates ?vs activities)"
    then have "set (map fst c) \<subseteq> set ?vs" using candidates_keys[of c ?vs activities] by simp
    then show "admissible [no_duplicate, food_after_slot ?cfg'] [] c
        = admissible [no_duplicate, food_after_slot cfg] [] c"
      by (rule admissible_low_food_after_slot[OF f assms])
  qed
  then show ?thesis unfolding first_solution_def m .
qed

text \<open>
  C2, as stated: a non-positive \<^verbatim>\<open>max_per_day\<close> or \<^verbatim>\<open>food_after_slot\<close> is reported as an
  input error before the search. Neither is: with \<^verbatim>\<open>food_after_slot = 0\<close> the call
  returns a schedule, and with \<^verbatim>\<open>max_per_day = 0\<close> it returns the very mapping of the
  no-solution outcome.
\<close>

theorem nonpositive_options_not_rejected_counterexample:
  "generate_schedule [lunch] 10 10 [''max_per_day'' \<mapsto> 1, ''food_after_slot'' \<mapsto> 0]
     = Inr [(''Day1'', PyList [lunch])] \<and>
   generate_schedule [lunch] 10 10 [''max_per_day'' \<mapsto> 0] = Inr no_solution_message"
  by code_simp

text \<open>
  C2, amended: the configuration is never validated and \<open>generate_schedule\<close> raises
  nothing. A non-positive \<^verbatim>\<open>max_per_day\<close> generates no variable and gives the
  no-solution message mapping; a \<^verbatim>\<open>food_after_slot\<close> below 1 constrains nothing,
  every slot number being at least 1, and gives the result of \<^verbatim>\<open>food_after_slot = 1\<close>.
\<close>

theorem nonpositive_options_accepted:
  "\<not> isl (generate_schedule activities start_date end_date cfg) \<and>
   (dict_get cfg ''max_per_day'' 3 \<le> 0 \<longrightarrow>
      generate_schedule activities start_date end_date cfg = Inr no_solution_message) \<and>
   (dict_get cfg ''food_after_slot'' 1 \<le> 0 \<longrightarrow>
      generate_schedule activities start_date end_date cfg
        = generate_schedule activities start_date end_date (cfg(''food_after_slot'' \<mapsto> 1)))"
proof (intro conjI impI)
  show "\<not> isl (generate_schedule activities start_date end_date cfg)"
    by (rule generate_schedule_total)
next
  assume "dict_get cfg ''max_per_day'' 3 \<le> 0"
  then show "generate_schedule activities start_date end_date cfg = Inr no_solution_message"
    by (intro generate_schedule_no_variables make_variables_empty) simp
next
  assume "dict_get cfg ''food_after_slot'' 1 \<le> 0"
  then have "dict_get cfg ''food_after_slot'' 1 \<le> 1" by simp
  note fs = first_solution_low_food_after_slot[OF this, of activities start_date end_date]
  have m: "dict_get (cfg(''food_after_slot'' \<mapsto> 1)) ''max_per_day'' 3 = dict_get cfg ''max_per_day'' 3"
    by (simp add: dict_get_def)
  show "generate_schedule activities start_date end_date cfg
        = generate_schedule activities start_date end_date (cfg(''food_after_slot'' \<mapsto> 1))"
    unfolding generate_schedule_eq fs m ..
qed

theorem nonpositive_options_accepted_witness:
  "dict_get [''max_per_day'' \<mapsto> - 2] ''max_per_day'' 3 \<le> (0::int) \<and>
   generate_schedule [museum, lunch] 10 10 [''max_per_day'' \<mapsto> - 2] = Inr no_solution_message \<and>
   dict_get [''max_per_day'' \<mapsto> 1, ''food_after_slot'' \<mapsto> - 1] ''food_after_slot'' 1 \<le> (0::int) \<and>
   generate_schedule [lunch, museum] 10 10 [''max_per_day'' \<mapsto> 1, ''food_after_slot'' \<mapsto> - 1]
     = generate_schedule [lunch, museum] 10 10 ([''max_per_day'' \<mapsto> 1, ''food_after_slot'' \<mapsto> - 1](''food_after_slot'' \<mapsto> 1))"
proof -
  have a: "dict_get [''max_per_day'' \<mapsto> - 2] ''max_per_day'' 3 \<le> (0::int)"
    by (simp add: dict_get_def)
  have b: "dict_get [''max_per_day'' \<mapsto> 1, ''food_after_slot'' \<mapsto> - 1] ''food_after_slot'' 1 \<le> (0::int)"
    by (simp add: dict_get_def)
  from nonpositive_options_accepted[of "[museum, lunch]" 10 10 "[''max_per_day'' \<mapsto> - 2]"] a
  have c: "generate_schedule [museum, lunch] 10 10 [''max_per_day'' \<mapsto> - 2] = Inr no_solution_message"
    by blast
  from nonpositive_options_accepted[of "[lunch, museum]" 10 10 "[''max_per_day'' \<mapsto> 1, ''food_after_slot'' \<mapsto> - 1]"] b
  have d: "generate_schedule [lunch, museum] 10 10 [''max_per_day'' \<mapsto> 1, ''food_after_slot'' \<mapsto> - 1]
     = generate_schedule [lunch, museum] 10 10 ([''max_per_day'' \<mapsto> 1, ''food_after_slot'' \<mapsto> - 1](''food_after_slot'' \<mapsto> 1))"
    by blast
  from a b c d show ?thesis by blast
qed

end
